theory Spec2Isabelle
  imports Complex_Main "HOL-Library.AList" "HOL-Library.Log_Nat"
begin

section \<open>Common vocabulary\<close>

text \<open>
  The development embeds four functions of \<^verbatim>\<open>src/geometry/cgal/cgalutils.cc\<close>:
  \<^verbatim>\<open>computeResizeTransform\<close>, \<^verbatim>\<open>createPolySetFromNefPolyhedron3\<close>,
  \<^verbatim>\<open>createNefPolyhedronFromPolySet\<close> and \<^verbatim>\<open>is_approximately_convex\<close>.

  Where the C++ has undefined behaviour or stops, the model returns an \<open>error\<close>: an
  index that leaves its container, an exact division by zero, a failed \<^verbatim>\<open>assert\<close>.
  A loop body that executes \<^verbatim>\<open>return\<close> yields \<open>Return\<close>, one that falls through to
  the next iteration yields \<open>Continue\<close> with the loop's variables.
\<close>

datatype error = OutOfBounds | DivisionByZero | AssertionFailed

datatype ('r, 's) flow = Return 'r | Continue 's

definition bind_err :: "error + 'a \<Rightarrow> ('a \<Rightarrow> error + 'b) \<Rightarrow> error + 'b" where
  "bind_err m f = (case m of Inl e \<Rightarrow> Inl e | Inr x \<Rightarrow> f x)"

datatype message_group = NoGroup | Warning | Error

text \<open>A logged message: its group, its format string and the arguments of the format.\<close>

datatype log_arg = Num nat | Str string

type_synonym log_message = "message_group \<times> string \<times> log_arg list"

section \<open>computeResizeTransform\<close>

text \<open>
  \<^verbatim>\<open>Vector3d\<close>, \<^verbatim>\<open>Eigen::Matrix<bool, 3, 1>\<close> and the two three-element
  \<^verbatim>\<open>std::vector<NT>\<close> of the function are vectors of exactly three components; reading
  or writing a component at an index above 2 is out of range.
  The kernel's field type \<^verbatim>\<open>NT\<close> is an exact rational type, so \<open>rat\<close>. The
  components of \<^verbatim>\<open>newsize\<close> are doubles; finite doubles are rationals and
  \<^verbatim>\<open>NT(newsize[i])\<close> converts them exactly, so they are \<open>rat\<close> as well (NaN and
  infinities are outside the model). The one rounding step, \<^verbatim>\<open>CGAL::to_double\<close>, is
  a parameter of the model.
\<close>

datatype 'a vec3 = Vec3 'a 'a 'a

fun vget :: "'a vec3 \<Rightarrow> nat \<Rightarrow> error + 'a" where
  "vget (Vec3 x y z) i =
     (if i = 0 then Inr x else if i = 1 then Inr y else if i = 2 then Inr z
      else Inl OutOfBounds)"

fun vset :: "'a vec3 \<Rightarrow> nat \<Rightarrow> 'a \<Rightarrow> error + 'a vec3" where
  "vset (Vec3 x y z) i a =
     (if i = 0 then Inr (Vec3 a y z) else if i = 1 then Inr (Vec3 x a z)
      else if i = 2 then Inr (Vec3 x y a) else Inl OutOfBounds)"

definition divide_NT :: "rat \<Rightarrow> rat \<Rightarrow> error + rat" where
  "divide_NT a b = (if b = 0 then Inl DivisionByZero else Inr (a / b))"

record iso_cuboid =
  min_coord :: "rat vec3"
  max_coord :: "rat vec3"

type_synonym matrix4 = "rat list list"

definition Identity :: matrix4 where
  "Identity = [[1, 0, 0, 0], [0, 1, 0, 0], [0, 0, 1, 0], [0, 0, 0, 1]]"

definition scale_matrix :: "rat \<Rightarrow> rat \<Rightarrow> rat \<Rightarrow> matrix4" where
  "scale_matrix a b c = [[a, 0, 0, 0], [0, b, 0, 0], [0, 0, c, 0], [0, 0, 0, 1]]"

text \<open>The first loop: three times \<^verbatim>\<open>bbox_size.push_back(bb.max_coord(i) - bb.min_coord(i))\<close>.\<close>

fun bbox_size_of :: "iso_cuboid \<Rightarrow> rat vec3" where
  "bbox_size_of bb =
     (case (max_coord bb, min_coord bb) of
        (Vec3 x1 y1 z1, Vec3 x0 y0 z0) \<Rightarrow> Vec3 (x1 - x0) (y1 - y0) (z1 - z0))"

text \<open>
  The second loop, over \<open>i = 0, \<dots>, dimension - 1\<close>. Its variables are \<open>scale\<close> and
  \<open>newsizemax_index\<close>; \<open>Return ()\<close> is the early \<^verbatim>\<open>return Transform3d::Identity()\<close>.
  The division is reached only behind the test \<^verbatim>\<open>bbox_size[i] == NT(0)\<close>.
\<close>

fun scale_loop ::
  "rat vec3 \<Rightarrow> rat vec3 \<Rightarrow> nat list \<Rightarrow> rat vec3 \<Rightarrow> nat
     \<Rightarrow> error + (unit, rat vec3 \<times> nat) flow"
where
  "scale_loop newsize bbox_size [] scale newsizemax_index =
     Inr (Continue (scale, newsizemax_index))"
| "scale_loop newsize bbox_size (i # is) scale newsizemax_index =
     (case vget newsize i of Inl e \<Rightarrow> Inl e | Inr ns \<Rightarrow>
        if ns \<noteq> 0 then
          (case vget bbox_size i of Inl e \<Rightarrow> Inl e | Inr bs \<Rightarrow>
             if bs = 0 then Inr (Return ())
             else
               (case vset scale i (ns / bs) of Inl e \<Rightarrow> Inl e | Inr scale' \<Rightarrow>
                  (case vget newsize newsizemax_index of Inl e \<Rightarrow> Inl e | Inr nmax \<Rightarrow>
                     scale_loop newsize bbox_size is scale'
                       (if ns > nmax then i else newsizemax_index))))
        else scale_loop newsize bbox_size is scale newsizemax_index)"

text \<open>The third loop: \<^verbatim>\<open>if (autosize[i] && newsize[i] == 0) scale[i] = autoscale\<close>.\<close>

fun autosize_loop ::
  "rat vec3 \<Rightarrow> bool vec3 \<Rightarrow> rat \<Rightarrow> nat list \<Rightarrow> rat vec3 \<Rightarrow> error + rat vec3"
where
  "autosize_loop newsize autosize autoscale [] scale = Inr scale"
| "autosize_loop newsize autosize autoscale (i # is) scale =
     (case vget autosize i of Inl e \<Rightarrow> Inl e | Inr a \<Rightarrow>
        if a then
          (case vget newsize i of Inl e \<Rightarrow> Inl e | Inr ns \<Rightarrow>
             if ns = 0 then
               (case vset scale i autoscale of Inl e \<Rightarrow> Inl e | Inr scale' \<Rightarrow>
                  autosize_loop newsize autosize autoscale is scale')
             else autosize_loop newsize autosize autoscale is scale)
        else autosize_loop newsize autosize autoscale is scale)"

definition flat_warning :: log_message where
  "flat_warning = (Warning, ''Resize in direction normal to flat object is not implemented'', [])"

definition computeResizeTransform ::
  "(rat \<Rightarrow> rat) \<Rightarrow> iso_cuboid \<Rightarrow> nat \<Rightarrow> rat vec3 \<Rightarrow> bool vec3
     \<Rightarrow> error + (matrix4 \<times> log_message list)"
where
  "computeResizeTransform to_double bb dimension newsize autosize =
     (let scale = Vec3 1 1 1;
          bbox_size = bbox_size_of bb
      in case scale_loop newsize bbox_size [0..<dimension] scale 0 of
           Inl e \<Rightarrow> Inl e
         | Inr (Return _) \<Rightarrow> Inr (Identity, [flat_warning])
         | Inr (Continue (scale, newsizemax_index)) \<Rightarrow>
             bind_err (vget newsize newsizemax_index) (\<lambda>nmax.
             bind_err (if nmax \<noteq> 0
                       then bind_err (vget bbox_size newsizemax_index) (divide_NT nmax)
                       else Inr 1) (\<lambda>autoscale.
             bind_err (autosize_loop newsize autosize autoscale [0..<dimension] scale) (\<lambda>scale.
               case scale of Vec3 s0 s1 s2 \<Rightarrow>
                 Inr (scale_matrix (to_double s0) (to_double s1) (to_double s2), [])))))"

subsection \<open>The resize claims in the words of the specification\<close>

fun vnth :: "'a vec3 \<Rightarrow> nat \<Rightarrow> 'a" where
  "vnth (Vec3 x y z) i = (if i = 0 then x else if i = 1 then y else z)"

text \<open>Diagonal, shear-free, translation-free: four rows of four entries, zero off the
  diagonal, and 1 in the homogeneous corner.\<close>

definition is_scale_matrix :: "matrix4 \<Rightarrow> bool" where
  "is_scale_matrix M \<longleftrightarrow>
     length M = 4 \<and> (\<forall>r<4. length (M ! r) = 4) \<and>
     (\<forall>r<4. \<forall>c<4. r \<noteq> c \<longrightarrow> M ! r ! c = 0) \<and> M ! 3 ! 3 = 1"

text \<open>The active axes with an explicit (non-zero) target size.\<close>

definition requested_axes :: "nat \<Rightarrow> rat vec3 \<Rightarrow> nat list" where
  "requested_axes dimension newsize = filter (\<lambda>i. vnth newsize i \<noteq> 0) [0..<dimension]"

text \<open>The axis with the largest requested target size (the first one, if several tie).\<close>

definition largest_target_axis :: "nat \<Rightarrow> rat vec3 \<Rightarrow> nat option" where
  "largest_target_axis dimension newsize =
     find (\<lambda>k. \<forall>j \<in> set (requested_axes dimension newsize). vnth newsize j \<le> vnth newsize k)
       (requested_axes dimension newsize)"

text \<open>
  The situation of claim C7: some active axis has a target size while the bounding box
  has no extent on it. The call then returns the identity before any autosize axis is
  looked at.
\<close>

definition flat_axis_requested :: "iso_cuboid \<Rightarrow> nat \<Rightarrow> rat vec3 \<Rightarrow> bool" where
  "flat_axis_requested bb dimension newsize \<longleftrightarrow>
     (\<exists>i<dimension. vnth newsize i \<noteq> 0 \<and> vnth (bbox_size_of bb) i = 0)"

text \<open>
  The scale factor of the largest-target axis, target size over extent, or 1 if no active
  axis has a target size.
\<close>

definition largest_target_factor :: "iso_cuboid \<Rightarrow> nat \<Rightarrow> rat vec3 \<Rightarrow> rat" where
  "largest_target_factor bb dimension newsize =
     (case largest_target_axis dimension newsize of
        None \<Rightarrow> 1
      | Some k \<Rightarrow> vnth newsize k / vnth (bbox_size_of bb) k)"

text \<open>
  The statement of the specification: the call yields a scale matrix, and unless it has
  returned early for a flat axis, every active autosize axis without a target of its own
  is scaled by the factor of the largest-target axis.
\<close>

definition autosize_adopts_largest ::
  "(rat \<Rightarrow> rat) \<Rightarrow> iso_cuboid \<Rightarrow> nat \<Rightarrow> rat vec3 \<Rightarrow> bool vec3 \<Rightarrow> bool"
where
  "autosize_adopts_largest to_double bb dimension newsize autosize \<longleftrightarrow>
     (\<exists>M lg. computeResizeTransform to_double bb dimension newsize autosize = Inr (M, lg) \<and>
        is_scale_matrix M \<and>
        (flat_axis_requested bb dimension newsize \<or>
         (\<forall>i<dimension. vnth autosize i \<and> vnth newsize i = 0 \<longrightarrow>
            M ! i ! i = to_double (largest_target_factor bb dimension newsize))))"

text \<open>
  The scale of every axis as the specification gives it: target size over extent for an
  active axis with a target, the factor of the largest-target axis for an active autosize
  axis without one, and 1 otherwise.
\<close>

definition specified_scale :: "iso_cuboid \<Rightarrow> nat \<Rightarrow> rat vec3 \<Rightarrow> bool vec3 \<Rightarrow> nat \<Rightarrow> rat" where
  "specified_scale bb dimension newsize autosize i =
     (if i < dimension \<and> vnth newsize i \<noteq> 0 then vnth newsize i / vnth (bbox_size_of bb) i
      else if i < dimension \<and> vnth autosize i then largest_target_factor bb dimension newsize
      else 1)"

text \<open>
  The first axis has no target size, some active axis has one, and every target size of
  an active axis is negative.
\<close>

definition only_negative_targets :: "nat \<Rightarrow> rat vec3 \<Rightarrow> bool" where
  "only_negative_targets dimension newsize \<longleftrightarrow>
     vnth newsize 0 = 0 \<and> requested_axes dimension newsize \<noteq> [] \<and>
     (\<forall>k \<in> set (requested_axes dimension newsize). vnth newsize k < 0)"

text \<open>
  What the call does in that case: every active autosize axis without a target is scaled
  by 1.
\<close>

definition autosize_keeps_one ::
  "(rat \<Rightarrow> rat) \<Rightarrow> iso_cuboid \<Rightarrow> nat \<Rightarrow> rat vec3 \<Rightarrow> bool vec3 \<Rightarrow> bool"
where
  "autosize_keeps_one to_double bb dimension newsize autosize \<longleftrightarrow>
     (\<exists>M. computeResizeTransform to_double bb dimension newsize autosize = Inr (M, []) \<and>
        (\<forall>i<dimension. vnth autosize i \<and> vnth newsize i = 0 \<longrightarrow> M ! i ! i = to_double 1))"

text \<open>
  The index the second loop leaves in \<open>newsizemax_index\<close>, written as a fold over the
  active axes, and the value that the function then stores in \<open>autoscale\<close>. Both are
  used to state what the loops compute.
\<close>

definition track_largest :: "rat vec3 \<Rightarrow> nat list \<Rightarrow> nat \<Rightarrow> nat" where
  "track_largest newsize is mx =
     fold (\<lambda>i mx. if vnth newsize i \<noteq> 0 \<and> vnth newsize i > vnth newsize mx then i else mx)
       is mx"

definition autoscale_of :: "rat vec3 \<Rightarrow> rat vec3 \<Rightarrow> nat \<Rightarrow> rat" where
  "autoscale_of ns bs dimension =
     (let m = track_largest ns [0..<dimension] 0
      in if vnth ns m \<noteq> 0 then vnth ns m / vnth bs m else 1)"

text \<open>The bounding box \<open>[0,1]\<^sup>3\<close> of the specification's example.\<close>

definition unit_cube :: iso_cuboid where
  "unit_cube = \<lparr>min_coord = Vec3 0 0 0, max_coord = Vec3 1 1 1\<rparr>"

text \<open>A box that is flat in the first axis.\<close>

definition flat_box :: iso_cuboid where
  "flat_box = \<lparr>min_coord = Vec3 0 0 0, max_coord = Vec3 0 1 1\<rparr>"

section \<open>createPolySetFromNefPolyhedron3\<close>

subsection \<open>The data\<close>

text \<open>
  Modelled from the spec: the members of \<^verbatim>\<open>PolySet\<close> (PolySet.h is not among the
  sources): a mesh is an ordered sequence of polygons, each an ordered sequence of
  vertices carrying a mark flag, and a dimension tag.
  What \<^verbatim>\<open>CGAL_forall_halffacets\<close> and \<^verbatim>\<open>CGAL_forall_facet_cycles_of\<close> enumerate
  is all the function reads of a Nef polyhedron: the half-facets in iteration order, each
  with its mark, the mark of its incident volume and its boundary cycles, a cycle being
  the points \<^verbatim>\<open>c1->source()->center_vertex()->point()\<close> met around it.
\<close>

record 'v polygon =
  vertices :: "'v list"
  marked :: bool

record 'v PolySet =
  ps_polygons :: "'v polygon list"
  ps_dim :: nat

record 'p halffacet =
  mark :: bool
  incident_volume_mark :: bool
  facet_cycles :: "'p list list"

type_synonym 'p Nef_polyhedron_3 = "'p halffacet list"

type_synonym IndexedFace = "nat list"

type_synonym IndexedTriangle = "int \<times> int \<times> int"

text \<open>
  The functions of other translation units that the function calls:
  \<^verbatim>\<open>vector_convert<Vector3f>\<close>, the two overloads of
  \<^verbatim>\<open>GeometryUtils::findUnconnectedEdges\<close>, and
  \<^verbatim>\<open>GeometryUtils::tessellatePolygonWithHoles\<close>, which returns its error flag and
  the triangles it wrote.
\<close>

record ('p, 'v) geometry_utils =
  vector_convert :: "'p \<Rightarrow> 'v"
  findUnconnectedEdges_faces :: "IndexedFace list list \<Rightarrow> nat"
  findUnconnectedEdges_triangles :: "IndexedTriangle list \<Rightarrow> nat"
  tessellatePolygonWithHoles :: "'v list \<Rightarrow> IndexedFace list \<Rightarrow> bool \<times> IndexedTriangle list"

text \<open>
  Modelled from the spec: \<^verbatim>\<open>Reindexer::lookup\<close> (Reindexer.h is not among the
  sources): it returns the existing index if the point was already seen, else appends
  the point and returns the new index; insertion order is preserved. The state of the
  reindexer is the array that \<^verbatim>\<open>getArray()\<close> returns.
\<close>

definition lookup :: "'v \<Rightarrow> 'v list \<Rightarrow> nat \<times> 'v list" where
  "lookup v allVertices =
     (if v \<in> set allVertices then (length (takeWhile (\<lambda>x. x \<noteq> v) allVertices), allVertices)
      else (length allVertices, allVertices @ [v]))"

text \<open>
  Modelled from the spec: \<^verbatim>\<open>PolySet::append_poly\<close> and
  \<^verbatim>\<open>PolySet::append_vertex\<close> (PolySet.h is not among the sources): a mesh is an
  ordered sequence of polygons, each an ordered sequence of vertices carrying a mark flag;
  \<^verbatim>\<open>append_poly\<close> starts a new polygon with the given flag, \<^verbatim>\<open>append_vertex\<close>
  extends the last polygon.
\<close>

definition append_poly :: "bool \<Rightarrow> 'v PolySet \<Rightarrow> 'v PolySet" where
  "append_poly m ps = ps\<lparr>ps_polygons := ps_polygons ps @ [\<lparr>vertices = [], marked = m\<rparr>]\<rparr>"

definition append_vertex :: "'v \<Rightarrow> 'v PolySet \<Rightarrow> 'v PolySet" where
  "append_vertex v ps =
     ps\<lparr>ps_polygons := butlast (ps_polygons ps) @
          [(last (ps_polygons ps))\<lparr>vertices := vertices (last (ps_polygons ps)) @ [v]\<rparr>]\<rparr>"

subsection \<open>Step 1: the indexed polygon mesh\<close>

text \<open>The loop \<^verbatim>\<open>CGAL_For_all(c1, c2)\<close> over the points of one cycle.\<close>

fun walk_cycle :: "('p \<Rightarrow> 'v) \<Rightarrow> 'p list \<Rightarrow> 'v list \<Rightarrow> IndexedFace \<Rightarrow> 'v list \<times> IndexedFace" where
  "walk_cycle conv [] allVertices currface = (allVertices, currface)"
| "walk_cycle conv (p # rest) allVertices currface =
     (case lookup (conv p) allVertices of (idx, allVertices') \<Rightarrow>
        walk_cycle conv rest allVertices'
          (if currface = [] \<or> idx \<noteq> last currface then currface @ [idx] else currface))"

text \<open>
  The body of \<^verbatim>\<open>CGAL_forall_facet_cycles_of\<close>: push an empty face, fill it through the
  reference \<^verbatim>\<open>currface\<close>, drop a closing duplicate, and pop the face again when fewer
  than three indices are left.
\<close>

definition add_cycle :: "('p \<Rightarrow> 'v) \<Rightarrow> 'p list \<Rightarrow> 'v list \<times> IndexedFace list \<Rightarrow> 'v list \<times> IndexedFace list" where
  "add_cycle conv cycle st =
     (case st of (allVertices, faces) \<Rightarrow>
        let faces1 = faces @ [[]] in
        case walk_cycle conv cycle allVertices (last faces1) of (allVertices', currface) \<Rightarrow>
          let currface' = (if currface \<noteq> [] \<and> hd currface = last currface
                           then butlast currface else currface);
              faces2 = butlast faces1 @ [currface']
          in (allVertices', if length currface' < 3 then butlast faces2 else faces2))"

text \<open>
  The body of \<^verbatim>\<open>CGAL_forall_halffacets\<close>. The flag pushed on \<open>markedPolygons\<close> is
  \<^verbatim>\<open>!hfaceti->mark()\<close>; the cycles are walked when the incident volume is unmarked;
  a half-facet that is left without faces is popped from both vectors.
\<close>

definition add_halffacet ::
  "('p \<Rightarrow> 'v) \<Rightarrow> 'p halffacet \<Rightarrow> 'v list \<times> IndexedFace list list \<times> bool list
     \<Rightarrow> 'v list \<times> IndexedFace list list \<times> bool list"
where
  "add_halffacet conv hfacet st =
     (case st of (allVertices, polygons, markedPolygons) \<Rightarrow>
        let polygons1 = polygons @ [[]];
            marked = \<not> mark hfacet;
            markedPolygons1 = markedPolygons @ [marked]
        in case (if \<not> incident_volume_mark hfacet
                 then fold (add_cycle conv) (facet_cycles hfacet) (allVertices, last polygons1)
                 else (allVertices, last polygons1)) of
             (allVertices', faces) \<Rightarrow>
               let polygons2 = butlast polygons1 @ [faces]
               in if faces = [] then (allVertices', butlast polygons2, butlast markedPolygons1)
                  else (allVertices', polygons2, markedPolygons1))"

subsection \<open>Step 3: triangulating each face\<close>

text \<open>\<^verbatim>\<open>std::vector::at\<close> throws when the index is out of range.\<close>

definition vector_at :: "'a list \<Rightarrow> nat \<Rightarrow> error + 'a" where
  "vector_at xs i = (if i < length xs then Inr (xs ! i) else Inl OutOfBounds)"

text \<open>\<^verbatim>\<open>verts[t[k]]\<close> with a signed index.\<close>

definition vertex_at :: "'v list \<Rightarrow> int \<Rightarrow> error + 'v" where
  "vertex_at verts k = (if 0 \<le> k \<and> k < int (length verts) then Inr (verts ! nat k) else Inl OutOfBounds)"

definition index_ok :: "'v list \<Rightarrow> int \<Rightarrow> bool" where
  "index_ok verts k \<longleftrightarrow> 0 \<le> k \<and> k < int (length verts)"

text \<open>The inner loop over the triangles of one face, with its three assertions.\<close>

fun add_triangles ::
  "'v list \<Rightarrow> bool list \<Rightarrow> nat \<Rightarrow> IndexedTriangle list \<Rightarrow> IndexedTriangle list \<times> bool list
     \<Rightarrow> error + (IndexedTriangle list \<times> bool list)"
where
  "add_triangles verts markedPolygons polygonIndex [] acc = Inr acc"
| "add_triangles verts markedPolygons polygonIndex (t # ts) acc =
     (case (t, acc) of ((t0, t1, t2), (allTriangles, markedTriangles)) \<Rightarrow>
        if \<not> (index_ok verts t0 \<and> index_ok verts t1 \<and> index_ok verts t2)
        then Inl AssertionFailed
        else bind_err (vector_at markedPolygons polygonIndex) (\<lambda>m.
               add_triangles verts markedPolygons polygonIndex ts
                 (allTriangles @ [t], markedTriangles @ [m])))"

text \<open>
  The loop \<^verbatim>\<open>for (const auto& faces : polygons)\<close>. The flag that
  \<^verbatim>\<open>tessellatePolygonWithHoles\<close> returns is bound to a variable \<^verbatim>\<open>err\<close> declared
  inside the loop body; it decides only whether the triangles of this face are kept.
\<close>

fun triangulate_faces ::
  "('p, 'v) geometry_utils \<Rightarrow> 'v list \<Rightarrow> bool list \<Rightarrow> IndexedFace list list \<Rightarrow> nat
     \<Rightarrow> IndexedTriangle list \<times> bool list \<Rightarrow> error + (IndexedTriangle list \<times> bool list)"
where
  "triangulate_faces G verts markedPolygons [] polygonIndex acc = Inr acc"
| "triangulate_faces G verts markedPolygons (faces # rest) polygonIndex acc =
     (case tessellatePolygonWithHoles G verts faces of (err, triangles) \<Rightarrow>
        if \<not> err then
          bind_err (add_triangles verts markedPolygons polygonIndex triangles acc) (\<lambda>acc'.
            triangulate_faces G verts markedPolygons rest (polygonIndex + 1) acc')
        else triangulate_faces G verts markedPolygons rest (polygonIndex + 1) acc)"

subsection \<open>Step 5: the PolySet\<close>

fun append_triangles ::
  "'v list \<Rightarrow> bool list \<Rightarrow> IndexedTriangle list \<Rightarrow> nat \<Rightarrow> 'v PolySet \<Rightarrow> error + 'v PolySet"
where
  "append_triangles verts markedTriangles [] triangleIndex ps = Inr ps"
| "append_triangles verts markedTriangles (t # ts) triangleIndex ps =
     (case t of (t0, t1, t2) \<Rightarrow>
        bind_err (vector_at markedTriangles triangleIndex) (\<lambda>m.
        bind_err (vertex_at verts t0) (\<lambda>v0.
        bind_err (vertex_at verts t1) (\<lambda>v1.
        bind_err (vertex_at verts t2) (\<lambda>v2.
          append_triangles verts markedTriangles ts (triangleIndex + 1)
            (append_vertex v2 (append_vertex v1 (append_vertex v0 (append_poly m ps)))))))))"

subsection \<open>The function\<close>

definition unconnected_log :: "string \<Rightarrow> nat \<Rightarrow> log_message list" where
  "unconnected_log msg unconnected =
     (if unconnected > 0 then [(Error, msg, [Num unconnected])] else [])"

text \<open>
  The result is the returned flag, the \<^verbatim>\<open>PolySet\<close> passed by reference after the
  call, and the messages logged. The variable \<open>err\<close> of the function body is initialised
  to false and returned at the end.
\<close>

definition createPolySetFromNefPolyhedron3 ::
  "('p, 'v) geometry_utils \<Rightarrow> 'p Nef_polyhedron_3 \<Rightarrow> 'v PolySet
     \<Rightarrow> error + (bool \<times> 'v PolySet \<times> log_message list)"
where
  "createPolySetFromNefPolyhedron3 G N ps =
     (let err = False in
      case fold (add_halffacet (vector_convert G)) N ([], [], []) of
        (allVertices, polygons, markedPolygons) \<Rightarrow>
          let log1 = unconnected_log ''Non-manifold mesh encountered: %1$d unconnected edges''
                       (findUnconnectedEdges_faces G polygons);
              verts = allVertices
          in bind_err (triangulate_faces G verts markedPolygons polygons 0 ([], []))
               (\<lambda>(allTriangles, markedTriangles).
                  let log2 = unconnected_log ''Non-manifold mesh created: %1$d unconnected edges''
                               (findUnconnectedEdges_triangles G allTriangles)
                  in bind_err (append_triangles verts markedTriangles allTriangles 0 ps)
                       (\<lambda>ps'. Inr (err, ps', log1 @ log2))))"

subsection \<open>Where a triangle comes from\<close>

text \<open>
  The faces that step 1 collects for one half-facet, and the half-facets it retains
  (those left with at least one face), each paired with its faces. The reindexer is
  threaded through as in the function.
\<close>

definition halffacet_faces :: "('p \<Rightarrow> 'v) \<Rightarrow> 'p halffacet \<Rightarrow> 'v list \<Rightarrow> 'v list \<times> IndexedFace list" where
  "halffacet_faces conv hfacet allVertices =
     (if \<not> incident_volume_mark hfacet
      then fold (add_cycle conv) (facet_cycles hfacet) (allVertices, [])
      else (allVertices, []))"

fun retained ::
  "('p \<Rightarrow> 'v) \<Rightarrow> 'p halffacet list \<Rightarrow> 'v list \<Rightarrow> ('p halffacet \<times> IndexedFace list) list \<times> 'v list"
where
  "retained conv [] allVertices = ([], allVertices)"
| "retained conv (hfacet # rest) allVertices =
     (case halffacet_faces conv hfacet allVertices of (allVertices', faces) \<Rightarrow>
        case retained conv rest allVertices' of (r, allVertices'') \<Rightarrow>
          ((if faces = [] then [] else [(hfacet, faces)]) @ r, allVertices''))"

text \<open>The triangles of a face that reach the output: none when its triangulation fails.\<close>

definition kept_triangles :: "('p, 'v) geometry_utils \<Rightarrow> 'v list \<Rightarrow> IndexedFace list \<Rightarrow> IndexedTriangle list" where
  "kept_triangles G verts faces =
     (case tessellatePolygonWithHoles G verts faces of (err, triangles) \<Rightarrow>
        if err then [] else triangles)"

definition triangle_polygon :: "'v list \<Rightarrow> bool \<Rightarrow> IndexedTriangle \<Rightarrow> 'v polygon" where
  "triangle_polygon verts m t =
     (case t of (t0, t1, t2) \<Rightarrow>
        \<lparr>vertices = [verts ! nat t0, verts ! nat t1, verts ! nat t2], marked = m\<rparr>)"

text \<open>
  The mesh in which every triangle tessellated from a retained half-facet carries the
  flag \<open>flag_of h\<close> of that half-facet \<open>h\<close>.
\<close>

definition mesh_with_flags ::
  "('p halffacet \<Rightarrow> bool) \<Rightarrow> ('p, 'v) geometry_utils \<Rightarrow> 'p Nef_polyhedron_3 \<Rightarrow> 'v polygon list" where
  "mesh_with_flags flag_of G N =
     (case retained (vector_convert G) N [] of (r, verts) \<Rightarrow>
        concat (map (\<lambda>(h, faces). map (triangle_polygon verts (flag_of h)) (kept_triangles G verts faces)) r))"

definition triangles_carry ::
  "('p halffacet \<Rightarrow> bool) \<Rightarrow> ('p, 'v) geometry_utils \<Rightarrow> 'p Nef_polyhedron_3 \<Rightarrow> 'v PolySet \<Rightarrow> bool" where
  "triangles_carry flag_of G N ps \<longleftrightarrow>
     (\<forall>err ps' lg. createPolySetFromNefPolyhedron3 G N ps = Inr (err, ps', lg) \<longrightarrow>
        ps' = ps\<lparr>ps_polygons := ps_polygons ps @ mesh_with_flags flag_of G N\<rparr>)"

text \<open>The three assertions on a triangle: every index lies within \<open>allVertices\<close>.\<close>

definition triangle_ok :: "'v list \<Rightarrow> IndexedTriangle \<Rightarrow> bool" where
  "triangle_ok verts t \<longleftrightarrow>
     (case t of (t0, t1, t2) \<Rightarrow> index_ok verts t0 \<and> index_ok verts t1 \<and> index_ok verts t2)"

text \<open>The tessellator only returns indices of vertices it was given, on every face of
  the polyhedron whose triangles are kept.\<close>

definition tessellator_in_range :: "('p, 'v) geometry_utils \<Rightarrow> 'p Nef_polyhedron_3 \<Rightarrow> bool" where
  "tessellator_in_range G N \<longleftrightarrow>
     (case retained (vector_convert G) N [] of (r, verts) \<Rightarrow>
        \<forall>(h, faces) \<in> set r. \<forall>t \<in> set (kept_triangles G verts faces). triangle_ok verts t)"

definition triangle_vertices :: "'v list \<Rightarrow> IndexedTriangle \<Rightarrow> 'v list" where
  "triangle_vertices verts t =
     (case t of (t0, t1, t2) \<Rightarrow> [verts ! nat t0, verts ! nat t1, verts ! nat t2])"

text \<open>
  The statement about dropped faces: the flag is false, the polygons already in the
  \<^verbatim>\<open>PolySet\<close> stay, and the polygons added are the triangles of the faces of step 1,
  face after face, a face whose triangulation fails contributing none.
\<close>

definition failed_faces_dropped ::
  "('p, 'v) geometry_utils \<Rightarrow> 'p Nef_polyhedron_3 \<Rightarrow> 'v PolySet \<Rightarrow> bool" where
  "failed_faces_dropped G N ps \<longleftrightarrow>
     (\<forall>err ps' lg. createPolySetFromNefPolyhedron3 G N ps = Inr (err, ps', lg) \<longrightarrow>
        \<not> err \<and> take (length (ps_polygons ps)) (ps_polygons ps') = ps_polygons ps \<and>
        (case fold (add_halffacet (vector_convert G)) N ([], [], []) of
           (verts, polygons, markedPolygons) \<Rightarrow>
             map vertices (drop (length (ps_polygons ps)) (ps_polygons ps')) =
               concat (map (\<lambda>faces. map (triangle_vertices verts) (kept_triangles G verts faces))
                         polygons)))"

text \<open>
  An example: points are their own vertices, the tessellator handles a face that is a
  single triangle and fails on every other face. The polyhedron has a marked half-facet
  with a triangle (one point repeated, and closed by its first point), a half-facet on a
  marked volume, a degenerate half-facet, a quadrilateral, and an unmarked triangle.
\<close>

definition example_utils :: "(nat, nat) geometry_utils" where
  "example_utils =
     \<lparr>vector_convert = (\<lambda>p. p),
      findUnconnectedEdges_faces = (\<lambda>_. 0),
      findUnconnectedEdges_triangles = (\<lambda>_. 0),
      tessellatePolygonWithHoles =
        (\<lambda>verts faces. case faces of
           [[a, b, c]] \<Rightarrow> (False, [(int a, int b, int c)])
         | _ \<Rightarrow> (True, []))\<rparr>"

definition example_nef :: "nat Nef_polyhedron_3" where
  "example_nef =
     [\<lparr>mark = True, incident_volume_mark = False, facet_cycles = [[10, 11, 11, 12, 10]]\<rparr>,
      \<lparr>mark = True, incident_volume_mark = True, facet_cycles = [[10, 11, 12]]\<rparr>,
      \<lparr>mark = False, incident_volume_mark = False, facet_cycles = [[10, 11, 11, 10]]\<rparr>,
      \<lparr>mark = False, incident_volume_mark = False, facet_cycles = [[10, 11, 12, 13]]\<rparr>,
      \<lparr>mark = False, incident_volume_mark = False, facet_cycles = [[12, 11, 10]]\<rparr>]"

text \<open>The fresh mesh \<^verbatim>\<open>PolySet(3)\<close> that the callers pass, and the mesh after the call.\<close>

definition new_PolySet :: "nat PolySet" where
  "new_PolySet = \<lparr>ps_polygons = [], ps_dim = 3\<rparr>"

definition example_mesh :: "nat PolySet" where
  "example_mesh =
     \<lparr>ps_polygons =
        [\<lparr>vertices = [10, 11, 12], marked = False\<rparr>, \<lparr>vertices = [12, 11, 10], marked = True\<rparr>],
      ps_dim = 3\<rparr>"

section \<open>createNefPolyhedronFromPolySet\<close>

text \<open>
  A CGAL call either returns or raises an exception carrying the text of
  \<^verbatim>\<open>e.what()\<close>: a \<^verbatim>\<open>CGAL::Assertion_exception\<close>, the class that both handlers of the
  function name, or an exception of any other class (a
  \<^verbatim>\<open>CGAL::Precondition_exception\<close>, say), which no handler of the function catches.
  The function itself ends in one of three ways: it returns, its \<^verbatim>\<open>assert\<close> fails, or
  an exception leaves it uncaught; in the last case the model keeps what had been logged
  and which meshes had been handed to \<^verbatim>\<open>createPolyhedronFromPolySet\<close> by then.
\<close>

datatype exn = Assertion_exception string | Other_exception string


datatype 'v abort = Assert_failed | Uncaught exn "log_message list" "'v PolySet list"

text \<open>
  The calls into CGAL and into other translation units:
  \<^verbatim>\<open>PolySet::quantizeVertices\<close> (the quantized copy and the point list it fills),
  \<^verbatim>\<open>PolySetUtils::tessellate_faces\<close>, \<^verbatim>\<open>PolySet::is_convex\<close>, the convex hull
  with its copy into an exact polyhedron, \<^verbatim>\<open>CGALUtils::createPolyhedronFromPolySet\<close>
  (its error flag and the polyhedron it filled), \<^verbatim>\<open>P.is_closed()\<close>,
  \<^verbatim>\<open>P.is_valid(false, 0)\<close> and the constructor \<^verbatim>\<open>CGAL_Nef_polyhedron3(P)\<close>.
\<close>

record ('v, 'P, 'N) cgal =
  quantizeVertices :: "'v PolySet \<Rightarrow> 'v PolySet \<times> 'v list"
  tessellate_faces :: "'v PolySet \<Rightarrow> 'v PolySet"
  is_convex :: "'v PolySet \<Rightarrow> bool"
  convex_hull_3 :: "'v list \<Rightarrow> exn + 'P"
  createPolyhedronFromPolySet :: "'v PolySet \<Rightarrow> exn + (bool \<times> 'P)"
  is_closed :: "'P \<Rightarrow> bool"
  is_valid :: "'P \<Rightarrow> bool"
  Nef_polyhedron3 :: "'P \<Rightarrow> exn + 'N"

text \<open>
  Modelled from the spec: \<^verbatim>\<open>PolySet::isEmpty\<close> (PolySet.h is not among the sources):
  the empty mesh is the mesh without polygons.
\<close>

definition isEmpty :: "'v PolySet \<Rightarrow> bool" where
  "isEmpty ps \<longleftrightarrow> ps_polygons ps = []"

text \<open>
  The wrapper \<^verbatim>\<open>CGAL_Nef_polyhedron\<close> that is returned holds a pointer that may be
  null, the empty result. Next to it the model returns the messages logged, and the
  meshes handed to \<^verbatim>\<open>createPolyhedronFromPolySet\<close>, in order of the calls.
\<close>

record ('v, 'N) nef_result =
  nef :: "'N option"
  logged :: "log_message list"
  attempts :: "'v PolySet list"

text \<open>\<^verbatim>\<open>std::string::find(needle) != npos\<close>.\<close>

fun starts_with :: "string \<Rightarrow> string \<Rightarrow> bool" where
  "starts_with s [] = True"
| "starts_with [] (c # n) = False"
| "starts_with (d # s) (c # n) = (d = c \<and> starts_with s n)"

fun contains :: "string \<Rightarrow> string \<Rightarrow> bool" where
  "contains [] needle = (needle = [])"
| "contains (c # s) needle = (starts_with (c # s) needle \<or> contains s needle)"

text \<open>The test of the first handler: the messages of a failed planarity assertion.\<close>

definition is_plane_error :: "string \<Rightarrow> bool" where
  "is_plane_error w \<longleftrightarrow>
     (contains w ''Plane_constructor'' \<and> contains w ''has_on'') \<or>
     contains w ''ss_plane.has_on(sv_prev->point())'' \<or>
     contains w ''ss_circle.has_on(sp)''"

definition not_closed_message :: log_message where
  "not_closed_message =
     (Error, ''The given mesh is not closed! Unable to convert to CGAL_Nef_Polyhedron.'', [])"

definition invalid_message :: log_message where
  "invalid_message =
     (Error, ''The given mesh is invalid! Unable to convert to CGAL_Nef_Polyhedron.'', [])"

definition nonplanar_message :: log_message where
  "nonplanar_message = (NoGroup, ''PolySet has nonplanar faces. Attempting alternate construction'', [])"

definition cgal_error_message :: "string \<Rightarrow> log_message" where
  "cgal_error_message w = (Error, ''CGAL error in CGAL_Nef_polyhedron3(): %1$s'', [Str w])"

definition alternate_failed_message :: "string \<Rightarrow> log_message" where
  "alternate_failed_message w =
     (Error, ''Alternate construction failed. CGAL error in CGAL_Nef_polyhedron3(): %1$s'', [Str w])"

text \<open>
  The statements of the two \<^verbatim>\<open>try\<close> blocks run over the effects of the function so far:
  the messages logged and the meshes handed to \<^verbatim>\<open>createPolyhedronFromPolySet\<close>, in the
  order of the calls. A statement either yields a value or raises, and a raise skips the
  statements after it; a handler for \<^verbatim>\<open>CGAL::Assertion_exception\<close> takes over for that
  class only.
\<close>

record 'v effects =
  messages :: "log_message list"
  polyhedron_calls :: "'v PolySet list"

type_synonym ('v, 'a) run = "'v effects \<Rightarrow> (exn + 'a) \<times> 'v effects"

definition returns :: "'a \<Rightarrow> ('v, 'a) run" where
  "returns x = (\<lambda>s. (Inr x, s))"

definition then_run :: "('v, 'a) run \<Rightarrow> ('a \<Rightarrow> ('v, 'b) run) \<Rightarrow> ('v, 'b) run" where
  "then_run m f = (\<lambda>s. case m s of (Inl e, s') \<Rightarrow> (Inl e, s') | (Inr x, s') \<Rightarrow> f x s')"

definition LOG :: "log_message \<Rightarrow> ('v, unit) run" where
  "LOG msg = (\<lambda>s. (Inr (), s\<lparr>messages := messages s @ [msg]\<rparr>))"

definition call_createPolyhedronFromPolySet ::
  "('v, 'P, 'N) cgal \<Rightarrow> 'v PolySet \<Rightarrow> ('v, bool \<times> 'P) run" where
  "call_createPolyhedronFromPolySet C ps =
     (\<lambda>s. (createPolyhedronFromPolySet C ps, s\<lparr>polyhedron_calls := polyhedron_calls s @ [ps]\<rparr>))"

definition new_Nef_polyhedron3 :: "('v, 'P, 'N) cgal \<Rightarrow> 'P \<Rightarrow> ('v, 'N) run" where
  "new_Nef_polyhedron3 C P = (\<lambda>s. (Nef_polyhedron3 C P, s))"

definition catch_Assertion_exception ::
  "('v, 'a) run \<Rightarrow> (string \<Rightarrow> ('v, 'a) run) \<Rightarrow> ('v, 'a) run" where
  "catch_Assertion_exception body handler =
     (\<lambda>s. case body s of
             (Inl (Assertion_exception w), s') \<Rightarrow> handler w s'
           | (Inl (Other_exception w), s') \<Rightarrow> (Inl (Other_exception w), s')
           | (Inr x, s') \<Rightarrow> (Inr x, s'))"

text \<open>
  The first \<^verbatim>\<open>try\<close> with its handler: the values left in \<open>N\<close> and \<open>plane_error\<close>.
\<close>

definition first_construction :: "('v, 'P, 'N) cgal \<Rightarrow> 'v PolySet \<Rightarrow> ('v, 'N option \<times> bool) run" where
  "first_construction C psq =
     catch_Assertion_exception
       (then_run (call_createPolyhedronFromPolySet C psq) (\<lambda>(err, P).
          if \<not> err then
            if \<not> is_closed C P then
              then_run (LOG not_closed_message) (\<lambda>_. returns (None, False))
            else if \<not> is_valid C P then
              then_run (LOG invalid_message) (\<lambda>_. returns (None, False))
            else then_run (new_Nef_polyhedron3 C P) (\<lambda>N. returns (Some N, False))
          else returns (None, False)))
       (\<lambda>w. if is_plane_error w
            then then_run (LOG nonplanar_message) (\<lambda>_. returns (None, True))
            else then_run (LOG (cgal_error_message w)) (\<lambda>_. returns (None, False)))"

text \<open>
  The second \<^verbatim>\<open>try\<close> with its handler, from the value of \<open>N\<close> before it to the value
  after it. Its two \<^verbatim>\<open>PRINTDB\<close> lines are debug output and are left out.
\<close>

definition alternate_construction ::
  "('v, 'P, 'N) cgal \<Rightarrow> 'v PolySet \<Rightarrow> 'N option \<Rightarrow> ('v, 'N option) run" where
  "alternate_construction C ps_tri N =
     catch_Assertion_exception
       (then_run (call_createPolyhedronFromPolySet C ps_tri) (\<lambda>(err, P).
          if \<not> err then then_run (new_Nef_polyhedron3 C P) (\<lambda>N'. returns (Some N'))
          else returns N))
       (\<lambda>w. then_run (LOG (alternate_failed_message w)) (\<lambda>_. returns N))"

definition createNefPolyhedronFromPolySet ::
  "('v, 'P, 'N) cgal \<Rightarrow> 'v PolySet \<Rightarrow> 'v abort + ('v, 'N) nef_result"
where
  "createNefPolyhedronFromPolySet C ps =
     (if isEmpty ps then Inr \<lparr>nef = None, logged = [], attempts = []\<rparr>
      else if ps_dim ps \<noteq> 3 then Inl Assert_failed
      else
        case quantizeVertices C ps of (psq, points3d) \<Rightarrow>
        let ps_tri = tessellate_faces C psq in
        if is_convex C ps_tri then
          let points = points3d in
          if length points \<le> 3 then Inr \<lparr>nef = None, logged = [], attempts = []\<rparr>
          else
            (case convex_hull_3 C points of
               Inl e \<Rightarrow> Inl (Uncaught e [] [])
             | Inr r_exact \<Rightarrow>
                 (case Nef_polyhedron3 C r_exact of
                    Inl e \<Rightarrow> Inl (Uncaught e [] [])
                  | Inr N \<Rightarrow> Inr \<lparr>nef = Some N, logged = [], attempts = []\<rparr>))
        else
          (case then_run (first_construction C psq) (\<lambda>(N, plane_error).
                  if plane_error then alternate_construction C ps_tri N else returns N)
                  \<lparr>messages = [], polyhedron_calls = []\<rparr>
           of (Inr N, s) \<Rightarrow> Inr \<lparr>nef = N, logged = messages s, attempts = polyhedron_calls s\<rparr>
            | (Inl e, s) \<Rightarrow> Inl (Uncaught e (messages s) (polyhedron_calls s))))"

subsection \<open>The retry policy in the words of the specification\<close>

text \<open>
  What the CGAL calls of a construction attempt do, read off the calls themselves.
  The first attempt, on the quantized mesh \<open>psq\<close>, raises \<open>e\<close> if building the polyhedron
  raises it, or if the polyhedron is built without error, is closed and valid, and the
  Nef constructor raises it. The alternate attempt, on the tessellated copy \<open>ps_tri\<close>,
  raises \<open>e\<close> if building the polyhedron or the Nef constructor raises it; it yields the
  Nef polyhedron constructed, or nothing if the polyhedron builder reports an error.
\<close>

definition construction_raises :: "('v, 'P, 'N) cgal \<Rightarrow> 'v PolySet \<Rightarrow> exn \<Rightarrow> bool" where
  "construction_raises C psq e \<longleftrightarrow>
     createPolyhedronFromPolySet C psq = Inl e \<or>
     (\<exists>P. createPolyhedronFromPolySet C psq = Inr (False, P) \<and> is_closed C P \<and> is_valid C P \<and>
          Nef_polyhedron3 C P = Inl e)"








definition quad_mesh_tri :: "nat PolySet" where
  "quad_mesh_tri =
     \<lparr>ps_polygons = [\<lparr>vertices = [0, 1, 2], marked = False\<rparr>, \<lparr>vertices = [0, 2, 3], marked = False\<rparr>],
      ps_dim = 3\<rparr>"

definition example_cgal :: "(nat, nat PolySet, nat PolySet) cgal" where
  "example_cgal =
     \<lparr>quantizeVertices = (\<lambda>ps. (ps, concat (map vertices (ps_polygons ps)))),
      tessellate_faces = (\<lambda>ps. quad_mesh_tri),
      is_convex = (\<lambda>ps. False),
      convex_hull_3 = (\<lambda>points. Inl (Assertion_exception ''hull'')),
      createPolyhedronFromPolySet =
        (\<lambda>ps. if \<forall>p \<in> set (ps_polygons ps). length (vertices p) = 3 then Inr (False, ps)
              else Inl (Assertion_exception ''CGAL ERROR: assertion violation! Expr: ss_plane.has_on(sv_prev->point())'')),
      is_closed = (\<lambda>P. True),
      is_valid = (\<lambda>P. True),
      Nef_polyhedron3 = (\<lambda>P. Inr P)\<rparr>"


section \<open>is_approximately_convex\<close>

text \<open>
  The function reads \<^verbatim>\<open>ps.polygons\<close> only, each polygon through its vertices, so
  the model takes the list of vertex sequences. Vertices are compared by the map's
  comparator, which on numbers is equality of coordinates; the vertex type is left open.

  The geometry is CGAL's, over doubles, and is a parameter: the plane through the first
  vertex with the normal of \<^verbatim>\<open>normal_vector_newell_3\<close>, the default-constructed plane,
  \<^verbatim>\<open>has_on_positive_side\<close>, the expression \<^verbatim>\<open>u / sqrt(u * u) * v / sqrt(v * v)\<close> on
  the orthogonal vectors of two planes, and the constant \<^verbatim>\<open>cos_degrees(.1)\<close>.

  The value of that expression is a double: a number, an infinity, or not a number. It is
  not a number when a normal is the zero vector, for then the expression divides zero by
  zero. The comparison \<^verbatim>\<open><\<close> on doubles is false whenever one side is not a number.
\<close>

datatype double = Finite real | PlusInfinity | MinusInfinity | NaN

fun double_less :: "double \<Rightarrow> double \<Rightarrow> bool" where
  "double_less (Finite x) (Finite y) = (x < y)"
| "double_less (Finite x) PlusInfinity = True"
| "double_less MinusInfinity (Finite y) = True"
| "double_less MinusInfinity PlusInfinity = True"
| "double_less _ _ = False"

record ('v, 'pl) kernel =
  newell_plane :: "'v list \<Rightarrow> 'pl"
  default_plane :: 'pl
  has_on_positive_side :: "'pl \<Rightarrow> 'v \<Rightarrow> bool"
  cos_angle :: "'pl \<Rightarrow> 'pl \<Rightarrow> double"
  angle_threshold :: double

type_synonym 'v Edge = "'v \<times> 'v"

text \<open>\<^verbatim>\<open>Edge_to_facet_map\<close>: \<^verbatim>\<open>count\<close> and \<^verbatim>\<open>find\<close> are \<open>map_of\<close>, the
  assignment through \<^verbatim>\<open>operator[]\<close> is \<open>AList.update\<close>.\<close>

type_synonym 'v Edge_to_facet_map = "('v Edge \<times> nat) list"

subsection \<open>First loop: edge to face relations and plane equations\<close>

text \<open>The loop over \<open>j\<close> of one face \<open>i\<close> with \<open>N \<ge> 3\<close> vertices; \<open>Return False\<close> is
  \<^verbatim>\<open>return false\<close> on an edge that is already in the map.\<close>

fun add_edges ::
  "'v list \<Rightarrow> nat \<Rightarrow> nat list \<Rightarrow> 'v Edge_to_facet_map \<Rightarrow> (bool, 'v Edge_to_facet_map) flow"
where
  "add_edges p i [] edge_to_facet_map = Continue edge_to_facet_map"
| "add_edges p i (j # js) edge_to_facet_map =
     (let N = length p;
          edge = (p ! j, p ! ((j + 1) mod N))
      in if map_of edge_to_facet_map edge \<noteq> None then Return False
         else add_edges p i js (AList.update edge i edge_to_facet_map))"

fun build_loop ::
  "('v, 'pl) kernel \<Rightarrow> 'v list list \<Rightarrow> nat list \<Rightarrow> 'v Edge_to_facet_map \<times> 'pl list
     \<Rightarrow> (bool, 'v Edge_to_facet_map \<times> 'pl list) flow"
where
  "build_loop K polygons [] st = Continue st"
| "build_loop K polygons (i # idxs) st =
     (case st of (edge_to_facet_map, facet_planes) \<Rightarrow>
        let N = length (polygons ! i) in
        if N \<ge> 3 then
          (case add_edges (polygons ! i) i [0..<N] edge_to_facet_map of
             Return b \<Rightarrow> Return b
           | Continue edge_to_facet_map' \<Rightarrow>
               build_loop K polygons idxs
                 (edge_to_facet_map', facet_planes @ [newell_plane K (polygons ! i)]))
        else build_loop K polygons idxs (edge_to_facet_map, facet_planes @ [default_plane K]))"

subsection \<open>Second loop: every edge against its neighbour\<close>

fun check_edges ::
  "('v, 'pl) kernel \<Rightarrow> 'v Edge_to_facet_map \<Rightarrow> 'pl list \<Rightarrow> 'v list \<Rightarrow> nat \<Rightarrow> nat list
     \<Rightarrow> error + (bool, unit) flow"
where
  "check_edges K edge_to_facet_map facet_planes p i [] = Inr (Continue ())"
| "check_edges K edge_to_facet_map facet_planes p i (j # js) =
     (let N = length p;
          other_edge = (p ! ((j + 1) mod N), p ! j)
      in case map_of edge_to_facet_map other_edge of
           None \<Rightarrow> Inr (Return False)
         | Some other_facet \<Rightarrow>
             let pt = p ! ((j + 2) mod N) in
             bind_err (vector_at facet_planes other_facet) (\<lambda>other_plane.
               if has_on_positive_side K other_plane pt then
                 bind_err (vector_at facet_planes i) (\<lambda>plane.
                   if double_less (cos_angle K other_plane plane) (angle_threshold K)
                   then Inr (Return False)
                   else check_edges K edge_to_facet_map facet_planes p i js)
               else check_edges K edge_to_facet_map facet_planes p i js))"

fun check_loop ::
  "('v, 'pl) kernel \<Rightarrow> 'v list list \<Rightarrow> 'v Edge_to_facet_map \<Rightarrow> 'pl list \<Rightarrow> nat list
     \<Rightarrow> error + (bool, unit) flow"
where
  "check_loop K polygons edge_to_facet_map facet_planes [] = Inr (Continue ())"
| "check_loop K polygons edge_to_facet_map facet_planes (i # idxs) =
     (let N = length (polygons ! i) in
      if N < 3 then check_loop K polygons edge_to_facet_map facet_planes idxs
      else
        (case check_edges K edge_to_facet_map facet_planes (polygons ! i) i [0..<N] of
           Inl e \<Rightarrow> Inl e
         | Inr (Return b) \<Rightarrow> Inr (Return b)
         | Inr (Continue _) \<Rightarrow> check_loop K polygons edge_to_facet_map facet_planes idxs))"

subsection \<open>Third loop: the traversal from face 0\<close>

text \<open>The loop over the edges of the face taken from the queue.\<close>

fun visit_edges ::
  "'v list \<Rightarrow> 'v Edge_to_facet_map \<Rightarrow> nat list \<Rightarrow> nat set \<times> nat list
     \<Rightarrow> (bool, nat set \<times> nat list) flow"
where
  "visit_edges p edge_to_facet_map [] st = Continue st"
| "visit_edges p edge_to_facet_map (i # idxs) st =
     (case st of (explored_facets, facets_to_visit) \<Rightarrow>
        let j = (i + 1) mod length p in
        case map_of edge_to_facet_map (p ! j, p ! i) of
          None \<Rightarrow> Return False
        | Some g \<Rightarrow>
            if g \<notin> explored_facets
            then visit_edges p edge_to_facet_map idxs (insert g explored_facets, facets_to_visit @ [g])
            else visit_edges p edge_to_facet_map idxs (explored_facets, facets_to_visit))"

text \<open>
  The \<^verbatim>\<open>while\<close> loop over the queue. It ends because a face enters the queue only
  when it enters \<open>explored_facets\<close>, and only the finitely many faces of the map do.
  \<open>Continue\<close> carries the explored set of the finished traversal.
\<close>

function bfs ::
  "'v list list \<Rightarrow> 'v Edge_to_facet_map \<Rightarrow> nat set \<Rightarrow> nat list \<Rightarrow> error + (bool, nat set) flow"
where
  "bfs polygons edge_to_facet_map explored_facets [] = Inr (Continue explored_facets)"
| "bfs polygons edge_to_facet_map explored_facets (f # facets_to_visit) =
     (case vector_at polygons f of
        Inl e \<Rightarrow> Inl e
      | Inr p \<Rightarrow>
          (case visit_edges p edge_to_facet_map [0..<length p] (explored_facets, facets_to_visit) of
             Return b \<Rightarrow> Inr (Return b)
           | Continue (explored_facets', facets_to_visit') \<Rightarrow>
               bfs polygons edge_to_facet_map explored_facets' facets_to_visit'))"
  by pat_completeness auto
termination
proof (relation "measure (\<lambda>(polygons, m, explored, queue).
                   2 * card (ran (map_of m) - explored) + length queue)")
  show "wf (measure (\<lambda>(polygons, m, explored, queue).
                   2 * card (ran (map_of m) - explored) + length queue))"
    by simp
next
  fix polygons :: "'v list list" and m :: "'v Edge_to_facet_map" and explored f queue p st
    explored' queue'
  assume "visit_edges p m [0..<length p] (explored, queue) = Continue st"
    and "(explored', queue') = st"
  then have v: "visit_edges p m [0..<length p] (explored, queue) = Continue (explored', queue')"
    by simp
  have decrease: "2 * card (ran (map_of m) - explored') + length queue'
       \<le> 2 * card (ran (map_of m) - ex) + length q"
    if "visit_edges p m idxs (ex, q) = Continue (explored', queue')" for idxs ex q
    using that
  proof (induction idxs arbitrary: ex q)
    case Nil
    then show ?case by simp
  next
    case (Cons i idxs)
    let ?e = "(p ! ((i + 1) mod length p), p ! i)"
    from Cons.prems obtain g where g: "map_of m ?e = Some g"
      by (cases "map_of m ?e") (simp_all add: Let_def)
    show ?case
    proof (cases "g \<in> ex")
      case True
      then have "visit_edges p m idxs (ex, q) = Continue (explored', queue')"
        using Cons.prems g by (simp add: Let_def)
      then show ?thesis by (rule Cons.IH)
    next
      case False
      then have "visit_edges p m idxs (insert g ex, q @ [g]) = Continue (explored', queue')"
        using Cons.prems g by (simp add: Let_def)
      then have step: "2 * card (ran (map_of m) - explored') + length queue'
          \<le> 2 * card (ran (map_of m) - insert g ex) + length (q @ [g])"
        by (rule Cons.IH)
      have fin: "finite (ran (map_of m) - ex)"
        by (simp add: finite_ran finite_dom_map_of)
      have mem: "g \<in> ran (map_of m) - ex" using g False by (auto intro: ranI)
      have "ran (map_of m) - insert g ex = (ran (map_of m) - ex) - {g}" by auto
      then have "card (ran (map_of m) - insert g ex) = card (ran (map_of m) - ex) - 1"
        using mem fin by simp
      moreover have "0 < card (ran (map_of m) - ex)"
        using mem fin by (auto simp: card_gt_0_iff)
      ultimately show ?thesis using step by simp
    qed
  qed
  from decrease[OF v]
  show "((polygons, m, explored', queue'), (polygons, m, explored, f # queue))
          \<in> measure (\<lambda>(polygons, m, explored, queue).
                   2 * card (ran (map_of m) - explored) + length queue)"
    by simp
qed

subsection \<open>The function\<close>

definition is_approximately_convex :: "('v, 'pl) kernel \<Rightarrow> 'v list list \<Rightarrow> error + bool" where
  "is_approximately_convex K polygons =
     (case build_loop K polygons [0..<length polygons] ([], []) of
        Return b \<Rightarrow> Inr b
      | Continue (edge_to_facet_map, facet_planes) \<Rightarrow>
          (case check_loop K polygons edge_to_facet_map facet_planes [0..<length polygons] of
             Inl e \<Rightarrow> Inl e
           | Inr (Return b) \<Rightarrow> Inr b
           | Inr (Continue _) \<Rightarrow>
               (case bfs polygons edge_to_facet_map {0} [0] of
                  Inl e \<Rightarrow> Inl e
                | Inr (Return b) \<Rightarrow> Inr b
                | Inr (Continue explored_facets) \<Rightarrow>
                    Inr (card explored_facets = length polygons))))"

subsection \<open>The conditions in the words of the specification\<close>

text \<open>A tessellated mesh: every face is a triangle.\<close>

definition tessellated :: "'v list list \<Rightarrow> bool" where
  "tessellated polygons \<longleftrightarrow> (\<forall>p \<in> set polygons. length p = 3)"

text \<open>The directed edge that leaves vertex \<open>j\<close> of face \<open>i\<close>, and an edge reversed.\<close>

definition directed_edge :: "'v list list \<Rightarrow> nat \<Rightarrow> nat \<Rightarrow> 'v Edge" where
  "directed_edge polygons i j =
     (polygons ! i ! j, polygons ! i ! ((j + 1) mod length (polygons ! i)))"

definition reversed :: "'v Edge \<Rightarrow> 'v Edge" where
  "reversed e = (snd e, fst e)"

text \<open>No directed edge occurs twice, be it in two face loops or in one.\<close>

definition no_repeated_edge :: "'v list list \<Rightarrow> bool" where
  "no_repeated_edge polygons \<longleftrightarrow>
     (\<forall>i<length polygons. \<forall>i'<length polygons.
        \<forall>j<length (polygons ! i). \<forall>j'<length (polygons ! i').
          directed_edge polygons i j = directed_edge polygons i' j' \<longrightarrow> i = i' \<and> j = j')"

text \<open>For every directed edge of every face the reverse edge exists in some face.\<close>

definition every_edge_has_reverse :: "'v list list \<Rightarrow> bool" where
  "every_edge_has_reverse polygons \<longleftrightarrow>
     (\<forall>i<length polygons. \<forall>j<length (polygons ! i).
        \<exists>g<length polygons. \<exists>k<length (polygons ! g).
          directed_edge polygons g k = reversed (directed_edge polygons i j))"

text \<open>
  Two readings of the tolerance test on a cosine \<open>c\<close> and the threshold \<open>t\<close>: the cosine
  is at least the threshold, the comparison \<^verbatim>\<open>>=\<close> of doubles, which is false when
  either is not a number; and the cosine is not below the threshold, which is true then.
\<close>

definition at_least_threshold :: "double \<Rightarrow> double \<Rightarrow> bool" where
  "at_least_threshold c t \<longleftrightarrow> c \<noteq> NaN \<and> t \<noteq> NaN \<and> (double_less t c \<or> c = t)"

definition not_below_threshold :: "double \<Rightarrow> double \<Rightarrow> bool" where
  "not_below_threshold c t \<longleftrightarrow> \<not> double_less c t"

text \<open>
  For every edge of a face \<open>F = i\<close> whose reverse belongs to a neighbour \<open>G = g\<close>: if
  the vertex two steps ahead on \<open>F\<close> is strictly on the positive side of the plane of
  \<open>G\<close>, the cosine of the angle between the two face normals passes the tolerance test.
\<close>

definition no_reflex_edge ::
  "(double \<Rightarrow> double \<Rightarrow> bool) \<Rightarrow> ('v, 'pl) kernel \<Rightarrow> 'v list list \<Rightarrow> bool" where
  "no_reflex_edge within_tolerance K polygons \<longleftrightarrow>
     (\<forall>i<length polygons. \<forall>j<length (polygons ! i).
        \<forall>g<length polygons. \<forall>k<length (polygons ! g).
          directed_edge polygons g k = reversed (directed_edge polygons i j) \<and>
          has_on_positive_side K (newell_plane K (polygons ! g))
            (polygons ! i ! ((j + 2) mod length (polygons ! i)))
          \<longrightarrow> within_tolerance
                (cos_angle K (newell_plane K (polygons ! g)) (newell_plane K (polygons ! i)))
                (angle_threshold K))"

text \<open>Face \<open>g\<close> is linked to face \<open>f\<close> when it owns the reverse of an edge of \<open>f\<close>; every
  face is reached from face 0 over such links.\<close>

definition reverse_link :: "'v list list \<Rightarrow> (nat \<times> nat) set" where
  "reverse_link polygons =
     {(f, g). f < length polygons \<and> g < length polygons \<and>
        (\<exists>j<length (polygons ! f). \<exists>k<length (polygons ! g).
           directed_edge polygons g k = reversed (directed_edge polygons f j))}"

definition all_faces_reached :: "'v list list \<Rightarrow> bool" where
  "all_faces_reached polygons \<longleftrightarrow> (\<forall>f<length polygons. (0, f) \<in> (reverse_link polygons)\<^sup>*)"

text \<open>
  The four conditions of the specification, for a reading of the tolerance test. No
  cosine of the mesh being not a number, the two readings agree.
\<close>

definition convexity_conditions ::
  "(double \<Rightarrow> double \<Rightarrow> bool) \<Rightarrow> ('v, 'pl) kernel \<Rightarrow> 'v list list \<Rightarrow> bool" where
  "convexity_conditions within_tolerance K polygons \<longleftrightarrow>
     no_repeated_edge polygons \<and> every_edge_has_reverse polygons \<and>
     no_reflex_edge within_tolerance K polygons \<and> all_faces_reached polygons"

definition cosines_are_numbers :: "('v, 'pl) kernel \<Rightarrow> 'v list list \<Rightarrow> bool" where
  "cosines_are_numbers K polygons \<longleftrightarrow>
     angle_threshold K \<noteq> NaN \<and>
     (\<forall>g<length polygons. \<forall>i<length polygons.
        cos_angle K (newell_plane K (polygons ! g)) (newell_plane K (polygons ! i)) \<noteq> NaN)"

subsection \<open>Notions used to state what the loops compute\<close>

text \<open>
  The \<open>j\<close>-th directed edge of a face, the set of directed edges of a face, the plane
  that the first loop stores for a face, and the faces that own the reverses of the
  edges \<open>J\<close> of a face according to the map.
\<close>

definition edge_of :: "'v list \<Rightarrow> nat \<Rightarrow> 'v Edge" where
  "edge_of p j = (p ! j, p ! ((j + 1) mod length p))"

definition edges_of_face :: "'v list \<Rightarrow> 'v Edge set" where
  "edges_of_face p = edge_of p ` {..<length p}"

definition plane_for :: "('v, 'pl) kernel \<Rightarrow> 'v list \<Rightarrow> 'pl" where
  "plane_for K p = (if 3 \<le> length p then newell_plane K p else default_plane K)"

definition successors :: "'v list \<Rightarrow> 'v Edge_to_facet_map \<Rightarrow> nat set \<Rightarrow> nat set" where
  "successors p m J = {g. \<exists>i\<in>J. map_of m (reversed (edge_of p i)) = Some g}"

subsection \<open>An exact kernel and a tetrahedron\<close>

text \<open>
  An instance of the geometry over integer coordinates, computed exactly: a plane is a
  point with the Newell normal of the face, a point is on the positive side when its
  offset from the plane's point has a positive product with the normal, and the cosine
  is that of the angle between the normals, not a number if one of them is zero. The
  threshold is the cosine of a tenth of a degree.
\<close>

type_synonym point3 = "int \<times> int \<times> int"

fun dot :: "point3 \<Rightarrow> point3 \<Rightarrow> int" where
  "dot (x, y, z) (x', y', z') = x * x' + y * y' + z * z'"

fun minus3 :: "point3 \<Rightarrow> point3 \<Rightarrow> point3" where
  "minus3 (x, y, z) (x', y', z') = (x - x', y - y', z - z')"

fun plus3 :: "point3 \<Rightarrow> point3 \<Rightarrow> point3" where
  "plus3 (x, y, z) (x', y', z') = (x + x', y + y', z + z')"

fun newell_term :: "point3 \<Rightarrow> point3 \<Rightarrow> point3" where
  "newell_term (x, y, z) (x', y', z') =
     ((y - y') * (z + z'), (z - z') * (x + x'), (x - x') * (y + y'))"

definition newell_normal :: "point3 list \<Rightarrow> point3" where
  "newell_normal v =
     fold (\<lambda>j n. plus3 n (newell_term (v ! j) (v ! ((j + 1) mod length v)))) [0..<length v] (0, 0, 0)"

definition exact_kernel :: "(point3, point3 \<times> point3) kernel" where
  "exact_kernel =
     \<lparr>newell_plane = (\<lambda>v. (v ! 0, newell_normal v)),
      default_plane = ((0, 0, 0), (0, 0, 0)),
      has_on_positive_side = (\<lambda>pl p. 0 < dot (snd pl) (minus3 p (fst pl))),
      cos_angle = (\<lambda>pl pl'.
                     if snd pl = (0, 0, 0) \<or> snd pl' = (0, 0, 0) then NaN
                     else Finite (real_of_int (dot (snd pl) (snd pl')) /
                            (sqrt (real_of_int (dot (snd pl) (snd pl))) *
                             sqrt (real_of_int (dot (snd pl') (snd pl')))))),
      angle_threshold = Finite (cos (pi / 1800))\<rparr>"

text \<open>The tetrahedron on the origin and the three unit points, its faces oriented
  outwards, and one of its faces alone.\<close>

definition tetrahedron :: "point3 list list" where
  "tetrahedron =
     [[(0, 0, 0), (0, 1, 0), (1, 0, 0)],
      [(0, 0, 0), (1, 0, 0), (0, 0, 1)],
      [(0, 0, 0), (0, 0, 1), (0, 1, 0)],
      [(1, 0, 0), (0, 1, 0), (0, 0, 1)]]"

definition single_triangle :: "point3 list list" where
  "single_triangle = [[(0, 0, 0), (0, 1, 0), (1, 0, 0)]]"

subsection \<open>The kernel over doubles and a mesh with a collinear face\<close>

text \<open>
  The arithmetic of \<^verbatim>\<open>CGAL::Simple_cartesian<double>\<close>. A finite double is a number
  \<open>m \<times> 2\<^sup>e\<close> with integers \<open>m\<close> and \<open>e\<close>; the result of an addition, a subtraction or a
  multiplication is the exact result rounded to the nearest number with 53 significant
  bits, a tie going to the even one. The exponent is not bounded: overflow and subnormal
  numbers are left out, and the sign of a zero is not kept.
\<close>

datatype dyadic = Dyadic int int

fun value_of :: "dyadic \<Rightarrow> rat" where
  "value_of (Dyadic m e) = of_int m * 2 powi e"

fun round_double :: "dyadic \<Rightarrow> dyadic" where
  "round_double (Dyadic m e) =
     (let k = bitlen \<bar>m\<bar> - 53 in
      if k \<le> 0 then Dyadic m e
      else
        let q = m div 2 ^ nat k; r = m mod 2 ^ nat k; half = 2 ^ nat (k - 1)
        in Dyadic (if r < half then q else if half < r then q + 1
                   else if even q then q else q + 1) (e + k))"

fun double_plus :: "dyadic \<Rightarrow> dyadic \<Rightarrow> dyadic" where
  "double_plus (Dyadic m e) (Dyadic m' e') =
     (let l = min e e' in round_double (Dyadic (m * 2 ^ nat (e - l) + m' * 2 ^ nat (e' - l)) l))"

fun double_uminus :: "dyadic \<Rightarrow> dyadic" where
  "double_uminus (Dyadic m e) = Dyadic (- m) e"

definition double_minus :: "dyadic \<Rightarrow> dyadic \<Rightarrow> dyadic" where
  "double_minus x y = double_plus x (double_uminus y)"

fun double_times :: "dyadic \<Rightarrow> dyadic \<Rightarrow> dyadic" where
  "double_times (Dyadic m e) (Dyadic m' e') = round_double (Dyadic (m * m') (e + e'))"

fun is_positive :: "dyadic \<Rightarrow> bool" where
  "is_positive (Dyadic m e) \<longleftrightarrow> 0 < m"

fun is_zero :: "dyadic \<Rightarrow> bool" where
  "is_zero (Dyadic m e) \<longleftrightarrow> m = 0"

text \<open>
  A point is its three coordinates, a plane the four coefficients \<open>(a, b, c, d)\<close> of its
  equation. \<^verbatim>\<open>normal_vector_newell_3\<close> starts from the zero vector and adds, for every
  edge from \<open>p\<close> to \<open>q\<close> of the face, the last back to the first vertex,
  \<^verbatim>\<open>((p.y - q.y) * (p.z + q.z), (p.z - q.z) * (p.x + q.x), (p.x - q.x) * (p.y + q.y))\<close>.
  The plane through \<open>p\<close> with normal \<open>n\<close> has \<open>(a, b, c) = n\<close> and
  \<^verbatim>\<open>d = -a * p.x - b * p.y - c * p.z\<close>, and a point is on its positive side when
  \<^verbatim>\<open>a * x + b * y + c * z + d\<close> is positive.
\<close>

type_synonym double_point = "dyadic \<times> dyadic \<times> dyadic"

type_synonym double_plane = "dyadic \<times> dyadic \<times> dyadic \<times> dyadic"

fun newell_single_step_3 :: "double_point \<Rightarrow> double_point \<Rightarrow> double_point \<Rightarrow> double_point" where
  "newell_single_step_3 (px, py, pz) (qx, qy, qz) (nx, ny, nz) =
     (double_plus nx (double_times (double_minus py qy) (double_plus pz qz)),
      double_plus ny (double_times (double_minus pz qz) (double_plus px qx)),
      double_plus nz (double_times (double_minus px qx) (double_plus py qy)))"

definition normal_vector_newell_3 :: "double_point list \<Rightarrow> double_point" where
  "normal_vector_newell_3 v =
     fold (\<lambda>j n. newell_single_step_3 (v ! j) (v ! ((j + 1) mod length v)) n)
       [0..<length v] (Dyadic 0 0, Dyadic 0 0, Dyadic 0 0)"

fun plane_from_point_direction :: "double_point \<Rightarrow> double_point \<Rightarrow> double_plane" where
  "plane_from_point_direction (px, py, pz) (dx, dy, dz) =
     (dx, dy, dz,
      double_minus (double_minus (double_uminus (double_times dx px)) (double_times dy py))
        (double_times dz pz))"

definition Plane :: "double_point list \<Rightarrow> double_plane" where
  "Plane v = plane_from_point_direction (v ! 0) (normal_vector_newell_3 v)"

fun side_of_oriented_plane :: "double_plane \<Rightarrow> double_point \<Rightarrow> dyadic" where
  "side_of_oriented_plane (a, b, c, d) (x, y, z) =
     double_plus (double_plus (double_plus (double_times a x) (double_times b y))
                    (double_times c z)) d"

definition double_has_on_positive_side :: "double_plane \<Rightarrow> double_point \<Rightarrow> bool" where
  "double_has_on_positive_side pl p \<longleftrightarrow> is_positive (side_of_oriented_plane pl p)"

fun orthogonal_vector :: "double_plane \<Rightarrow> double_point" where
  "orthogonal_vector (a, b, c, d) = (a, b, c)"

fun is_zero_vector :: "double_point \<Rightarrow> bool" where
  "is_zero_vector (x, y, z) \<longleftrightarrow> is_zero x \<and> is_zero y \<and> is_zero z"

fun scalar_product :: "double_point \<Rightarrow> double_point \<Rightarrow> rat" where
  "scalar_product (x, y, z) (x', y', z') =
     value_of x * value_of x' + value_of y * value_of y' + value_of z * value_of z'"

text \<open>
  The cosine. If \<open>u\<close> is zero, \<^verbatim>\<open>u / sqrt(u * u)\<close> is zero divided by zero; if \<open>v\<close> is
  zero, the product with \<open>v\<close> is zero and is divided by zero: the value is not a number.
  For two normals other than zero the model takes the cosine of their angle itself, the
  roundings of the expression being left out.
\<close>

definition double_cos_angle :: "double_plane \<Rightarrow> double_plane \<Rightarrow> double" where
  "double_cos_angle pl pl' =
     (let u = orthogonal_vector pl; v = orthogonal_vector pl'
      in if is_zero_vector u \<or> is_zero_vector v then NaN
         else Finite (real_of_rat (scalar_product u v) /
                (sqrt (real_of_rat (scalar_product u u)) * sqrt (real_of_rat (scalar_product v v)))))"

definition double_kernel :: "(double_point, double_plane) kernel" where
  "double_kernel =
     \<lparr>newell_plane = Plane,
      default_plane = (Dyadic 0 0, Dyadic 0 0, Dyadic 0 0, Dyadic 0 0),
      has_on_positive_side = double_has_on_positive_side,
      cos_angle = double_cos_angle,
      angle_threshold = Finite (cos (pi / 1800))\<rparr>"

text \<open>
  The tetrahedron on \<open>A = (0, 0, 0)\<close>, \<open>B = (1, 1, 1)\<close>, \<open>C = (1, 0, 0)\<close> and
  \<open>D = (0, 0.6, 0)\<close> with the midpoint \<open>M = (0.5, 0.5, 0.5)\<close> of \<open>AB\<close> as a fifth vertex: the
  face \<open>ACB\<close> is split at \<open>M\<close> into two triangles, the face \<open>ABD\<close> is not, and the
  collinear triangle \<open>BAM\<close> closes the mesh between them. The double written \<^verbatim>\<open>0.6\<close> is
  \<open>5404319552844595 \<times> 2\<^sup>-\<^sup>5\<^sup>3\<close>, the number with 53 significant bits nearest to six tenths.
  Every coordinate is written with an odd \<open>m\<close>, or as \<open>0 \<times> 2\<^sup>0\<close>, so that equal points
  are equal terms.
\<close>

definition double_zero :: dyadic where "double_zero = Dyadic 0 0"

definition double_one :: dyadic where "double_one = Dyadic 1 0"

definition vertex_A :: double_point where "vertex_A = (double_zero, double_zero, double_zero)"

definition vertex_B :: double_point where "vertex_B = (double_one, double_one, double_one)"

definition vertex_C :: double_point where "vertex_C = (double_one, double_zero, double_zero)"

definition vertex_D :: double_point where
  "vertex_D = (double_zero, Dyadic 5404319552844595 (- 53), double_zero)"

definition vertex_M :: double_point where
  "vertex_M = (Dyadic 1 (- 1), Dyadic 1 (- 1), Dyadic 1 (- 1))"

definition split_tetrahedron :: "double_point list list" where
  "split_tetrahedron =
     [[vertex_A, vertex_C, vertex_M],
      [vertex_M, vertex_C, vertex_B],
      [vertex_A, vertex_B, vertex_D],
      [vertex_A, vertex_D, vertex_C],
      [vertex_B, vertex_C, vertex_D],
      [vertex_B, vertex_A, vertex_M]]"
section \<open>Properties of computeResizeTransform\<close>

lemma vget_Inr_lt: "vget v i = Inr x \<Longrightarrow> i < 3"
  by (cases v) (auto split: if_splits)
lemma upt_split_at: "i < n \<Longrightarrow> [0..<n] = [0..<i] @ i # [Suc i..<n]"
  using upt_add_eq_append[of 0 i "n - i"] by (simp add: upt_conv_Cons)

lemma upt3: "[0..<3] = [0,1,2]" "[0..<2] = [0,1]" "[0..<1] = [0]"
  by (simp_all add: upt_rec)

lemma vget_vnth: "i < 3 \<Longrightarrow> vget v i = Inr (vnth v i)"
  by (cases v) auto

lemma vset_vnth: "i < 3 \<Longrightarrow> \<exists>w. vset v i a = Inr w \<and> (\<forall>j<3. vnth w j = (if j = i then a else vnth v j))"
  by (cases v) auto

lemma track_largest_Cons:
  "track_largest ns (k # is) mx =
     track_largest ns is (if vnth ns k \<noteq> 0 \<and> vnth ns k > vnth ns mx then k else mx)"
  by (simp add: track_largest_def)

lemma scale_loop_Continue:
  assumes "\<forall>i\<in>set is. i < 3" "mx < 3" "\<forall>i\<in>set is. vnth ns i \<noteq> 0 \<longrightarrow> vnth bs i \<noteq> 0"
  shows "\<exists>scale'. scale_loop ns bs is scale mx = Inr (Continue (scale', track_largest ns is mx)) \<and>
           (\<forall>j<3. vnth scale' j =
              (if j \<in> set is \<and> vnth ns j \<noteq> 0 then vnth ns j / vnth bs j else vnth scale j))"
  using assms
proof (induction "is" arbitrary: scale mx)
  case Nil
  then show ?case by (simp add: track_largest_def)
next
  case (Cons k "is")
  have k: "k < 3" using Cons.prems(1) by simp
  have gk: "vget ns k = Inr (vnth ns k)" "vget bs k = Inr (vnth bs k)"
    using vget_vnth[OF k, of ns] vget_vnth[OF k, of bs] by simp_all
  have gm: "vget ns mx = Inr (vnth ns mx)" using vget_vnth[OF Cons.prems(2), of ns] .
  have p1: "\<forall>i\<in>set is. i < 3" and p3: "\<forall>i\<in>set is. vnth ns i \<noteq> 0 \<longrightarrow> vnth bs i \<noteq> 0"
    using Cons.prems by simp_all
  show ?case
  proof (cases "vnth ns k = 0")
    case True
    from Cons.IH[OF p1 Cons.prems(2) p3, of scale] obtain scale' where
      s: "scale_loop ns bs is scale mx = Inr (Continue (scale', track_largest ns is mx))"
         "\<forall>j<3. vnth scale' j = (if j \<in> set is \<and> vnth ns j \<noteq> 0 then vnth ns j / vnth bs j else vnth scale j)"
      by blast
    have "scale_loop ns bs (k # is) scale mx = Inr (Continue (scale', track_largest ns (k # is) mx))"
      using True s(1) by (simp add: gk track_largest_Cons)
    moreover have "\<forall>j<3. vnth scale' j = (if j \<in> set (k # is) \<and> vnth ns j \<noteq> 0 then vnth ns j / vnth bs j else vnth scale j)"
      using s(2) True by auto
    ultimately show ?thesis by blast
  next
    case False
    then have bnz: "vnth bs k \<noteq> 0" using Cons.prems(3) by simp
    obtain sc where sc: "vset scale k (vnth ns k / vnth bs k) = Inr sc"
      "\<forall>j<3. vnth sc j = (if j = k then vnth ns k / vnth bs k else vnth scale j)"
      using vset_vnth[OF k, of scale "vnth ns k / vnth bs k"] by blast
    define mx' where "mx' = (if vnth ns k > vnth ns mx then k else mx)"
    have mx': "mx' < 3" using k Cons.prems(2) by (simp add: mx'_def)
    from Cons.IH[OF p1 mx' p3, of sc] obtain scale' where
      s: "scale_loop ns bs is sc mx' = Inr (Continue (scale', track_largest ns is mx'))"
         "\<forall>j<3. vnth scale' j = (if j \<in> set is \<and> vnth ns j \<noteq> 0 then vnth ns j / vnth bs j else vnth sc j)"
      by blast
    have "scale_loop ns bs (k # is) scale mx = Inr (Continue (scale', track_largest ns (k # is) mx))"
      using False bnz s(1) by (simp add: gk gm sc(1) track_largest_Cons mx'_def)
    moreover have "\<forall>j<3. vnth scale' j = (if j \<in> set (k # is) \<and> vnth ns j \<noteq> 0 then vnth ns j / vnth bs j else vnth scale j)"
      using s(2) sc(2) False by auto
    ultimately show ?thesis by blast
  qed
qed

lemma autosize_loop_Inr:
  assumes "\<forall>i\<in>set is. i < 3"
  shows "\<exists>scale'. autosize_loop ns as a is scale = Inr scale' \<and>
           (\<forall>j<3. vnth scale' j =
              (if j \<in> set is \<and> vnth as j \<and> vnth ns j = 0 then a else vnth scale j))"
  using assms
proof (induction "is" arbitrary: scale)
  case Nil
  then show ?case by simp
next
  case (Cons k "is")
  have k: "k < 3" using Cons.prems(1) by simp
  have gk: "vget ns k = Inr (vnth ns k)" "vget as k = Inr (vnth as k)"
    using vget_vnth[OF k, of ns] vget_vnth[OF k, of as] by simp_all
  have p1: "\<forall>i\<in>set is. i < 3" using Cons.prems by simp
  show ?case
  proof (cases "vnth as k \<and> vnth ns k = 0")
    case True
    obtain sc where sc: "vset scale k a = Inr sc"
      "\<forall>j<3. vnth sc j = (if j = k then a else vnth scale j)"
      using vset_vnth[OF k, of scale a] by blast
    from Cons.IH[OF p1, of sc] obtain scale' where
      s: "autosize_loop ns as a is sc = Inr scale'"
         "\<forall>j<3. vnth scale' j = (if j \<in> set is \<and> vnth as j \<and> vnth ns j = 0 then a else vnth sc j)"
      by blast
    have "autosize_loop ns as a (k # is) scale = Inr scale'"
      using True s(1) by (simp add: gk sc(1))
    moreover have "\<forall>j<3. vnth scale' j = (if j \<in> set (k # is) \<and> vnth as j \<and> vnth ns j = 0 then a else vnth scale j)"
      using s(2) sc(2) True by auto
    ultimately show ?thesis by blast
  next
    case False
    from Cons.IH[OF p1, of scale] obtain scale' where
      s: "autosize_loop ns as a is scale = Inr scale'"
         "\<forall>j<3. vnth scale' j = (if j \<in> set is \<and> vnth as j \<and> vnth ns j = 0 then a else vnth scale j)"
      by blast
    have "autosize_loop ns as a (k # is) scale = Inr scale'"
      using False s(1) by (auto simp add: gk)
    moreover have "\<forall>j<3. vnth scale' j = (if j \<in> set (k # is) \<and> vnth as j \<and> vnth ns j = 0 then a else vnth scale j)"
      using s(2) False by auto
    ultimately show ?thesis by blast
  qed
qed

lemma track_vs_largest:
  assumes "0 < dimension" "dimension \<le> 3" "\<not> only_negative_targets dimension ns"
  shows "case largest_target_axis dimension ns of
           None \<Rightarrow> vnth ns (track_largest ns [0..<dimension] 0) = 0
         | Some k \<Rightarrow> track_largest ns [0..<dimension] 0 = k \<and> k < dimension \<and> vnth ns k \<noteq> 0"
proof -
  obtain n0 n1 n2 where n: "ns = Vec3 n0 n1 n2" by (cases ns)
  consider "dimension = 1" | "dimension = 2" | "dimension = 3" using assms(1,2) by linarith
  then show ?thesis
  proof cases
    case 1
    then show ?thesis
      unfolding n largest_target_axis_def requested_axes_def track_largest_def
      by (auto simp: upt3 split: option.splits)
  next
    case 2
    have "n0 \<noteq> 0 \<or> n1 = 0 \<or> 0 \<le> n1"
      using assms(3) unfolding n only_negative_targets_def requested_axes_def 2 upt3
      by (auto split: if_splits)
    then show ?thesis
      unfolding n largest_target_axis_def requested_axes_def track_largest_def 2 upt3
      by (auto split: option.splits)
  next
    case 3
    have "n0 \<noteq> 0 \<or> (n1 = 0 \<and> n2 = 0) \<or> 0 < n1 \<or> 0 < n2"
      using assms(3) unfolding n only_negative_targets_def requested_axes_def 3 upt3
      by (auto split: if_splits)
    then show ?thesis
      unfolding n largest_target_axis_def requested_axes_def track_largest_def 3 upt3
      by (auto split: option.splits)
  qed
qed

lemma track_largest_stays:
  assumes "vnth ns mx = 0" "\<forall>i\<in>set is. vnth ns i \<noteq> 0 \<longrightarrow> vnth ns i < 0"
  shows "track_largest ns is mx = mx"
  using assms
proof (induction "is")
  case Nil
  then show ?case by (simp add: track_largest_def)
next
  case (Cons k "is")
  have "\<not> (vnth ns k \<noteq> 0 \<and> vnth ns k > vnth ns mx)" using Cons.prems by auto
  then have "track_largest ns (k # is) mx = track_largest ns is mx"
    by (simp only: track_largest_Cons if_False)
  then show ?case using Cons by simp
qed

lemma only_negative_autoscale:
  assumes "only_negative_targets dimension ns"
  shows "autoscale_of ns bs dimension = 1"
proof -
  have "\<forall>i\<in>set [0..<dimension]. vnth ns i \<noteq> 0 \<longrightarrow> vnth ns i < 0"
    using assms unfolding only_negative_targets_def requested_axes_def by auto
  moreover have "vnth ns 0 = 0" using assms unfolding only_negative_targets_def by simp
  ultimately have "track_largest ns [0..<dimension] 0 = 0" by (rule track_largest_stays[rotated])
  then show ?thesis using \<open>vnth ns 0 = 0\<close> by (simp add: autoscale_of_def)
qed

lemma largest_target_axis_Some:
  assumes "largest_target_axis dimension ns = Some k"
  shows "k < dimension \<and> vnth ns k \<noteq> 0"
proof -
  from assms have "k \<in> set (requested_axes dimension ns)"
    unfolding largest_target_axis_def by (auto simp: find_Some_iff)
  then show ?thesis by (simp add: requested_axes_def)
qed

lemma largest_target_axis_None:
  assumes "largest_target_axis dimension ns = None"
  shows "\<forall>i<dimension. vnth ns i = 0"
proof (rule ccontr)
  assume "\<not> ?thesis"
  then have ne: "set (requested_axes dimension ns) \<noteq> {}" by (auto simp: requested_axes_def)
  let ?R = "set (requested_axes dimension ns)"
  have fin: "finite (vnth ns ` ?R)" by simp
  have "Max (vnth ns ` ?R) \<in> vnth ns ` ?R" using ne by (intro Max_in) auto
  then obtain k where k: "k \<in> ?R" "vnth ns k = Max (vnth ns ` ?R)" by auto
  have "\<forall>j\<in>?R. vnth ns j \<le> vnth ns k" using k(2) by (simp add: Max_ge)
  with k(1) assms show False unfolding largest_target_axis_def by (auto simp: find_None_iff)
qed

lemma scale_loop_flat:
  assumes "\<forall>k \<in> set xs. k < 3" "vget newsize i = Inr ns" "ns \<noteq> 0" "vget bbox_size i = Inr 0"
    "mx < 3"
  shows "scale_loop newsize bbox_size (xs @ i # ys) scale mx = Inr (Return ())"
  using assms(1,5)
proof (induction xs arbitrary: scale mx)
  case Nil
  then show ?case using assms(2,3,4) by simp
next
  case (Cons k xs)
  from Cons.prems have k: "k < 3" by simp
  have nk: "vget newsize k = Inr (vnth newsize k)" and bk: "vget bbox_size k = Inr (vnth bbox_size k)"
    using vget_vnth[OF k, of newsize] vget_vnth[OF k, of bbox_size] by simp_all
  have nm: "vget newsize mx = Inr (vnth newsize mx)"
    using vget_vnth[OF Cons.prems(2), of newsize] .
  obtain sc where sc: "vset scale k (vnth newsize k / vnth bbox_size k) = Inr sc"
    using vset_vnth[OF k, of scale "vnth newsize k / vnth bbox_size k"] by blast
  have rec: "scale_loop newsize bbox_size (xs @ i # ys) scale' mx' = Inr (Return ())"
    if "mx' < 3" for scale' mx'
    using Cons.IH[OF _ that] Cons.prems(1) by simp
  show ?case
  proof (cases "vnth newsize k = 0")
    case True
    then show ?thesis using rec[OF Cons.prems(2)] by (simp add: nk)
  next
    case False
    show ?thesis
    proof (cases "vnth bbox_size k = 0")
      case True
      then show ?thesis using False by (simp add: nk bk)
    next
      case bnz: False
      have eq: "scale_loop newsize bbox_size ((k # xs) @ i # ys) scale mx =
            scale_loop newsize bbox_size (xs @ i # ys) sc
              (if vnth newsize k > vnth newsize mx then k else mx)"
        using False bnz by (simp add: nk bk sc nm)
      have "(if vnth newsize k > vnth newsize mx then k else mx) < 3"
        using k Cons.prems(2) by simp
      then show ?thesis unfolding eq by (rule rec)
    qed
  qed
qed

lemma resize_flat_identity:
  assumes "i < dimension" "vget newsize i = Inr ns" "ns \<noteq> 0" "vget (bbox_size_of bb) i = Inr 0"
  shows "computeResizeTransform to_double bb dimension newsize autosize = Inr (Identity, [flat_warning])"
proof -
  have i3: "i < 3" using assms(2) by (rule vget_Inr_lt)
  have "scale_loop newsize (bbox_size_of bb) ([0..<i] @ i # [Suc i..<dimension]) (Vec3 1 1 1) 0 = Inr (Return ())"
    using i3 assms by (intro scale_loop_flat) auto
  then have "scale_loop newsize (bbox_size_of bb) [0..<dimension] (Vec3 1 1 1) 0 = Inr (Return ())"
    using upt_split_at[OF assms(1)] by simp
  then show ?thesis by (simp add: computeResizeTransform_def Let_def del: bbox_size_of.simps)
qed

lemma track_largest_in: "track_largest ns is mx \<in> insert mx (set is)"
proof (induction "is" arbitrary: mx)
  case Nil
  show ?case by (simp add: track_largest_def)
next
  case (Cons k "is")
  define c where "c \<longleftrightarrow> vnth ns k \<noteq> 0 \<and> vnth ns k > vnth ns mx"
  have eq: "track_largest ns (k # is) mx = track_largest ns is (if c then k else mx)"
    by (simp add: track_largest_Cons c_def)
  show ?case unfolding eq using Cons.IH[of k] Cons.IH[of mx] by (cases c) auto
qed

lemma all_less_4: "(\<forall>r<4. P r) \<longleftrightarrow> P (0::nat) \<and> P 1 \<and> P 2 \<and> P 3"
proof -
  have "r < 4 \<longleftrightarrow> r = 0 \<or> r = 1 \<or> r = 2 \<or> r = 3" for r :: nat by arith
  then show ?thesis by (simp only:) blast
qed
lemma is_scale_matrix_scale_matrix: "is_scale_matrix (scale_matrix a b c)"
  unfolding is_scale_matrix_def scale_matrix_def all_less_4
  by simp
lemma is_scale_matrix_Identity: "is_scale_matrix Identity"
  using is_scale_matrix_scale_matrix[of 1 1 1] by (simp add: scale_matrix_def Identity_def)
lemma scale_matrix_diag:
  "i < 3 \<Longrightarrow> scale_matrix (f (vnth s 0)) (f (vnth s 1)) (f (vnth s 2)) ! i ! i = f (vnth s i)"
  by (cases s) (auto simp: scale_matrix_def less_Suc_eq numeral_3_eq_3)

lemma Identity_diag: "i < 3 \<Longrightarrow> Identity ! i ! i = 1"
  by (auto simp: Identity_def less_Suc_eq numeral_3_eq_3)

lemma resize_not_flat:
  assumes "0 < dimension" "dimension \<le> 3"
    and nf: "\<forall>i<dimension. vnth newsize i \<noteq> 0 \<longrightarrow> vnth (bbox_size_of bb) i \<noteq> 0"
  shows "\<exists>s. computeResizeTransform to_double bb dimension newsize autosize =
             Inr (scale_matrix (to_double (vnth s 0)) (to_double (vnth s 1)) (to_double (vnth s 2)), []) \<and>
           (\<forall>j<3. vnth s j =
              (if j < dimension \<and> vnth autosize j \<and> vnth newsize j = 0
               then autoscale_of newsize (bbox_size_of bb) dimension
               else if j < dimension \<and> vnth newsize j \<noteq> 0
               then vnth newsize j / vnth (bbox_size_of bb) j else 1))"
proof -
  let ?bs = "bbox_size_of bb"
  let ?is = "[0..<dimension]"
  let ?m = "track_largest newsize ?is 0"
  have is3: "\<forall>i\<in>set ?is. i < 3" using assms(2) by auto
  have nf': "\<forall>i\<in>set ?is. vnth newsize i \<noteq> 0 \<longrightarrow> vnth ?bs i \<noteq> 0" using nf by auto
  from scale_loop_Continue[OF is3 _ nf', of 0 "Vec3 1 1 1"] obtain sc where
    sc: "scale_loop newsize ?bs ?is (Vec3 1 1 1) 0 = Inr (Continue (sc, ?m))"
    "\<forall>j<3. vnth sc j = (if j \<in> set ?is \<and> vnth newsize j \<noteq> 0 then vnth newsize j / vnth ?bs j else vnth (Vec3 1 1 1) j)"
    by auto
  have m_in: "?m < dimension" using track_largest_in[of newsize ?is 0] assms(1) by auto
  then have m3: "?m < 3" using assms(2) by simp
  have gm: "vget newsize ?m = Inr (vnth newsize ?m)" "vget ?bs ?m = Inr (vnth ?bs ?m)"
    using vget_vnth[OF m3, of newsize] vget_vnth[OF m3, of ?bs] by simp_all
  let ?a = "autoscale_of newsize ?bs dimension"
  have auto_ok: "(if vnth newsize ?m \<noteq> 0 then bind_err (vget ?bs ?m) (divide_NT (vnth newsize ?m)) else Inr 1) = Inr ?a"
    using nf m_in by (simp add: gm bind_err_def divide_NT_def autoscale_of_def Let_def del: bbox_size_of.simps)
  from autosize_loop_Inr[OF is3, of newsize autosize ?a sc] obtain s where
    s: "autosize_loop newsize autosize ?a ?is sc = Inr s"
    "\<forall>j<3. vnth s j = (if j \<in> set ?is \<and> vnth autosize j \<and> vnth newsize j = 0 then ?a else vnth sc j)"
    by blast
  obtain s0 s1 s2 where sv: "s = Vec3 s0 s1 s2" by (cases s)
  have res: "computeResizeTransform to_double bb dimension newsize autosize =
      Inr (scale_matrix (to_double (vnth s 0)) (to_double (vnth s 1)) (to_double (vnth s 2)), [])"
    unfolding computeResizeTransform_def Let_def sc(1)
    by (simp add: gm(1) auto_ok s(1) bind_err_def sv del: bbox_size_of.simps)
  have "\<forall>j<3. vnth s j =
              (if j < dimension \<and> vnth autosize j \<and> vnth newsize j = 0
               then ?a
               else if j < dimension \<and> vnth newsize j \<noteq> 0
               then vnth newsize j / vnth ?bs j else 1)"
    using s(2) sc(2) by (auto simp: less_Suc_eq numeral_3_eq_3)
  with res show ?thesis by blast
qed

lemma not_flat_iff:
  "\<not> flat_axis_requested bb dimension newsize \<longleftrightarrow>
     (\<forall>i<dimension. vnth newsize i \<noteq> 0 \<longrightarrow> vnth (bbox_size_of bb) i \<noteq> 0)"
  unfolding flat_axis_requested_def by blast

lemma autoscale_is_largest_factor:
  assumes "0 < dimension" "dimension \<le> 3" "\<not> only_negative_targets dimension newsize"
  shows "autoscale_of newsize (bbox_size_of bb) dimension = largest_target_factor bb dimension newsize"
proof (cases "largest_target_axis dimension newsize")
  case None
  then have "vnth newsize (track_largest newsize [0..<dimension] 0) = 0"
    using track_vs_largest[OF assms] by simp
  then show ?thesis using None
    by (simp add: autoscale_of_def largest_target_factor_def del: bbox_size_of.simps)
next
  case (Some k)
  then have k: "track_largest newsize [0..<dimension] 0 = k" "vnth newsize k \<noteq> 0"
    using track_vs_largest[OF assms] by simp_all
  then show ?thesis using Some
    by (simp add: autoscale_of_def largest_target_factor_def del: bbox_size_of.simps)
qed

lemma resize_specified:
  assumes "0 < dimension" "dimension \<le> 3" "\<not> only_negative_targets dimension newsize"
    and nf: "\<not> flat_axis_requested bb dimension newsize"
  shows "computeResizeTransform to_double bb dimension newsize autosize =
           Inr (scale_matrix (to_double (specified_scale bb dimension newsize autosize 0))
                             (to_double (specified_scale bb dimension newsize autosize 1))
                             (to_double (specified_scale bb dimension newsize autosize 2)), [])"
proof -
  let ?bs = "bbox_size_of bb"
  from resize_not_flat[OF assms(1,2) nf[unfolded not_flat_iff], of to_double autosize] obtain s where
    s: "computeResizeTransform to_double bb dimension newsize autosize =
             Inr (scale_matrix (to_double (vnth s 0)) (to_double (vnth s 1)) (to_double (vnth s 2)), [])"
       "\<forall>j<3. vnth s j =
              (if j < dimension \<and> vnth autosize j \<and> vnth newsize j = 0
               then autoscale_of newsize ?bs dimension
               else if j < dimension \<and> vnth newsize j \<noteq> 0
               then vnth newsize j / vnth ?bs j else 1)"
    by blast
  have a: "autoscale_of newsize ?bs dimension = largest_target_factor bb dimension newsize"
    using autoscale_is_largest_factor[OF assms(1,2,3)] .
  have "vnth s j = specified_scale bb dimension newsize autosize j" if "j < 3" for j
    using s(2)[rule_format, OF that] unfolding a specified_scale_def by auto
  then have "vnth s 0 = specified_scale bb dimension newsize autosize 0"
       "vnth s 1 = specified_scale bb dimension newsize autosize 1"
       "vnth s 2 = specified_scale bb dimension newsize autosize 2"
    by simp_all
  then show ?thesis using s(1) by (simp only:)
qed

lemma resize_scale_matrix:
  assumes "0 < dimension" "dimension \<le> 3"
  shows "\<exists>M lg. computeResizeTransform to_double bb dimension newsize autosize = Inr (M, lg) \<and>
           is_scale_matrix M \<and> (flat_axis_requested bb dimension newsize \<or> lg = [])"
proof (cases "flat_axis_requested bb dimension newsize")
  case False
  from resize_not_flat[OF assms False[unfolded not_flat_iff], of to_double autosize]
  show ?thesis using is_scale_matrix_scale_matrix by blast
next
  case True
  then obtain i where i: "i < dimension" "vnth newsize i \<noteq> 0" "vnth (bbox_size_of bb) i = 0"
    unfolding flat_axis_requested_def by blast
  have i3: "i < 3" using i(1) assms(2) by simp
  have "computeResizeTransform to_double bb dimension newsize autosize =
          Inr (Identity, [flat_warning])"
    using resize_flat_identity[OF i(1) vget_vnth[OF i3, of newsize] i(2), of bb to_double autosize]
      vget_vnth[OF i3, of "bbox_size_of bb"] i(3) by simp
  then show ?thesis using is_scale_matrix_Identity True by blast
qed

lemma resize_adopts:
  assumes "0 < dimension" "dimension \<le> 3" "\<not> only_negative_targets dimension newsize"
  shows "autosize_adopts_largest to_double bb dimension newsize autosize"
proof (cases "flat_axis_requested bb dimension newsize")
  case True
  then show ?thesis unfolding autosize_adopts_largest_def
    using resize_scale_matrix[OF assms(1,2), of to_double bb newsize autosize] by blast
next
  case False
  let ?f = "specified_scale bb dimension newsize autosize"
  let ?M = "scale_matrix (to_double (?f 0)) (to_double (?f 1)) (to_double (?f 2))"
  have res: "computeResizeTransform to_double bb dimension newsize autosize = Inr (?M, [])"
    using resize_specified[OF assms False] .
  have "?M ! i ! i = to_double (largest_target_factor bb dimension newsize)"
    if i: "i < dimension" "vnth autosize i" "vnth newsize i = 0" for i
  proof -
    have i3: "i < 3" using i(1) assms(2) by simp
    have "?f i = largest_target_factor bb dimension newsize"
      using i by (simp add: specified_scale_def del: bbox_size_of.simps)
    moreover have "?M ! i ! i = to_double (vnth (Vec3 (?f 0) (?f 1) (?f 2)) i)"
      using scale_matrix_diag[OF i3, of to_double "Vec3 (?f 0) (?f 1) (?f 2)"]
      by (simp del: bbox_size_of.simps)
    moreover have "i = 0 \<or> i = 1 \<or> i = 2" using i3 by linarith
    then have "vnth (Vec3 (?f 0) (?f 1) (?f 2)) i = ?f i"
      by (elim disjE) (simp_all del: bbox_size_of.simps)
    ultimately show ?thesis by simp
  qed
  then show ?thesis unfolding autosize_adopts_largest_def
    using res is_scale_matrix_scale_matrix by blast
qed

lemma resize_keeps_one:
  assumes "0 < dimension" "dimension \<le> 3" "only_negative_targets dimension newsize"
    and nf: "\<not> flat_axis_requested bb dimension newsize"
  shows "autosize_keeps_one to_double bb dimension newsize autosize"
proof -
  let ?bs = "bbox_size_of bb"
  from resize_not_flat[OF assms(1,2) nf[unfolded not_flat_iff], of to_double autosize] obtain s where
    s: "computeResizeTransform to_double bb dimension newsize autosize =
             Inr (scale_matrix (to_double (vnth s 0)) (to_double (vnth s 1)) (to_double (vnth s 2)), [])"
       "\<forall>j<3. vnth s j =
              (if j < dimension \<and> vnth autosize j \<and> vnth newsize j = 0
               then autoscale_of newsize ?bs dimension
               else if j < dimension \<and> vnth newsize j \<noteq> 0
               then vnth newsize j / vnth ?bs j else 1)"
    by blast
  let ?M = "scale_matrix (to_double (vnth s 0)) (to_double (vnth s 1)) (to_double (vnth s 2))"
  have "?M ! i ! i = to_double 1"
    if i: "i < dimension" "vnth autosize i" "vnth newsize i = 0" for i
  proof -
    have i3: "i < 3" using i(1) assms(2) by simp
    have "vnth s i = 1"
      using s(2)[rule_format, OF i3] i only_negative_autoscale[OF assms(3), of ?bs] by simp
    then show ?thesis by (simp only: scale_matrix_diag[OF i3])
  qed
  then show ?thesis unfolding autosize_keeps_one_def using s(1) by blast
qed


text \<open>
  Claim C7. Whenever some active axis (an index below \<open>dimension\<close>) has a non-zero target
  size while the bounding box has zero extent on that axis, the call logs the warning and
  returns the identity transform: no axis is scaled, whatever the other axes ask for.
\<close>

theorem computeResizeTransform_flat_axis:
  assumes "i < dimension" and "vget newsize i = Inr ns" and "ns \<noteq> 0"
    and "vget (bbox_size_of bb) i = Inr 0"
  shows "computeResizeTransform to_double bb dimension newsize autosize =
           Inr (Identity, [flat_warning])"
  using assms by (rule resize_flat_identity)

theorem computeResizeTransform_flat_axis_witness:
  "(0::nat) < 3 \<and> vget (Vec3 1 2 0) 0 = Inr (1::rat) \<and> (1::rat) \<noteq> 0 \<and>
   vget (bbox_size_of flat_box) 0 = Inr 0 \<and>
   computeResizeTransform id flat_box 3 (Vec3 1 2 0) (Vec3 False False True) =
     Inr (Identity, [flat_warning])"
proof -
  have h1: "(0::nat) < 3" by simp
  have h2: "vget (Vec3 1 2 0) 0 = Inr (1::rat)" by simp
  have h3: "(1::rat) \<noteq> 0" by simp
  have h4: "vget (bbox_size_of flat_box) 0 = Inr 0" by (simp add: flat_box_def)
  show ?thesis
    using h1 h2 h3 h4
      computeResizeTransform_flat_axis[OF h1 h2 h3 h4, of id "Vec3 False False True"]
    by (simp only: simp_thms)
qed

text \<open>
  Claim C8, as the specification states it, fails when the only target sizes are negative
  and the first axis has none: with bounding box \<open>[0,1]\<^sup>3\<close>, target sizes \<open>(0, -2, 0)\<close> and
  autosize on the first axis only, the one axis with a target is the second, so the
  largest-target axis has the scale factor \<open>-2 / 1\<close>; the function leaves
  \<open>newsizemax_index\<close> at 0, whose target is zero, and scales the first axis by 1.
\<close>

theorem computeResizeTransform_autosize_counterexample:
  "computeResizeTransform id unit_cube 3 (Vec3 0 (-2) 0) (Vec3 True False False) =
     Inr (scale_matrix 1 (-2) 1, []) \<and>
   largest_target_axis 3 (Vec3 0 (-2) 0) = Some 1 \<and>
   largest_target_factor unit_cube 3 (Vec3 0 (-2) 0) = -2 \<and>
   \<not> flat_axis_requested unit_cube 3 (Vec3 0 (-2) 0) \<and>
   \<not> autosize_adopts_largest id unit_cube 3 (Vec3 0 (-2) 0) (Vec3 True False False)"
proof -
  have r: "computeResizeTransform id unit_cube 3 (Vec3 0 (-2) 0) (Vec3 True False False) =
        Inr (scale_matrix 1 (-2) 1, [])"
    by (simp add: computeResizeTransform_def unit_cube_def upt3 bind_err_def divide_NT_def)
  have l: "largest_target_axis 3 (Vec3 0 (-2) 0) = Some 1"
    by (simp add: largest_target_axis_def requested_axes_def upt3)
  have f: "largest_target_factor unit_cube 3 (Vec3 0 (-2) 0) = -2"
    by (simp add: largest_target_factor_def l unit_cube_def)
  have nf: "\<not> flat_axis_requested unit_cube 3 (Vec3 0 (-2) 0)"
    by (auto simp: flat_axis_requested_def unit_cube_def less_Suc_eq numeral_3_eq_3)
  have "\<not> autosize_adopts_largest id unit_cube 3 (Vec3 0 (-2) 0) (Vec3 True False False)"
    unfolding autosize_adopts_largest_def r f using nf
    by (auto simp: scale_matrix_def intro!: exI[of _ 0])
  with r l f nf show ?thesis by blast
qed

text \<open>
  Claim C8, amended. For a dimension from 1 to 3 the call always yields a diagonal,
  shear-free, translation-free scale matrix. Unless the first axis has no target size
  while every target size of an active axis is negative, the statement of the
  specification holds: every active autosize axis whose own target size is zero is scaled
  by the factor, target size over extent, of the axis with the largest target size (by 1
  if no active axis has a target size); if no axis is flat the whole matrix is the one
  the specification describes, each axis with a target size being scaled by its own
  factor and every other axis by 1. In the excepted case the tracked axis stays the
  first one and the autosize axes are scaled by 1. For the bounding box \<open>[0,1]\<^sup>3\<close>,
  target sizes \<open>(2, 0, 0)\<close>, autosize \<open>(false, true, true)\<close> and dimension 3 the result is
  the uniform scale by \<open>to_double 2\<close>.
\<close>

theorem computeResizeTransform_autosize:
  "(0 < dimension \<and> dimension \<le> 3 \<longrightarrow>
      (\<exists>M lg. computeResizeTransform to_double bb dimension newsize autosize = Inr (M, lg) \<and>
         is_scale_matrix M)) \<and>
   (0 < dimension \<and> dimension \<le> 3 \<and> \<not> only_negative_targets dimension newsize \<longrightarrow>
      autosize_adopts_largest to_double bb dimension newsize autosize) \<and>
   (0 < dimension \<and> dimension \<le> 3 \<and> \<not> only_negative_targets dimension newsize \<and>
    \<not> flat_axis_requested bb dimension newsize \<longrightarrow>
      computeResizeTransform to_double bb dimension newsize autosize =
        Inr (scale_matrix (to_double (specified_scale bb dimension newsize autosize 0))
                          (to_double (specified_scale bb dimension newsize autosize 1))
                          (to_double (specified_scale bb dimension newsize autosize 2)), [])) \<and>
   (0 < dimension \<and> dimension \<le> 3 \<and> only_negative_targets dimension newsize \<and>
    \<not> flat_axis_requested bb dimension newsize \<longrightarrow>
      autosize_keeps_one to_double bb dimension newsize autosize) \<and>
   computeResizeTransform to_double unit_cube 3 (Vec3 2 0 0) (Vec3 False True True) =
     Inr (scale_matrix (to_double 2) (to_double 2) (to_double 2), [])"
proof (intro conjI impI)
  assume d: "0 < dimension \<and> dimension \<le> 3"
  then show "\<exists>M lg. computeResizeTransform to_double bb dimension newsize autosize = Inr (M, lg) \<and>
         is_scale_matrix M"
    using resize_scale_matrix[of dimension to_double bb newsize autosize] by blast
next
  assume "0 < dimension \<and> dimension \<le> 3 \<and> \<not> only_negative_targets dimension newsize"
  then show "autosize_adopts_largest to_double bb dimension newsize autosize"
    using resize_adopts by blast
next
  assume "0 < dimension \<and> dimension \<le> 3 \<and> \<not> only_negative_targets dimension newsize \<and>
    \<not> flat_axis_requested bb dimension newsize"
  then show "computeResizeTransform to_double bb dimension newsize autosize =
        Inr (scale_matrix (to_double (specified_scale bb dimension newsize autosize 0))
                          (to_double (specified_scale bb dimension newsize autosize 1))
                          (to_double (specified_scale bb dimension newsize autosize 2)), [])"
    using resize_specified by blast
next
  assume "0 < dimension \<and> dimension \<le> 3 \<and> only_negative_targets dimension newsize \<and>
    \<not> flat_axis_requested bb dimension newsize"
  then show "autosize_keeps_one to_double bb dimension newsize autosize"
    using resize_keeps_one by blast
next
  show "computeResizeTransform to_double unit_cube 3 (Vec3 2 0 0) (Vec3 False True True) =
     Inr (scale_matrix (to_double 2) (to_double 2) (to_double 2), [])"
    by (simp add: computeResizeTransform_def unit_cube_def upt3 bind_err_def divide_NT_def)
qed

text \<open>
  The amended statement at the target sizes \<open>(3, -2, 0)\<close> with autosize on the third axis:
  the largest target is that of the first axis, and the third axis is scaled by its
  factor 3.
\<close>

theorem computeResizeTransform_autosize_witness:
  "0 < (3::nat) \<and> (3::nat) \<le> 3 \<and> \<not> only_negative_targets 3 (Vec3 3 (-2) 0) \<and>
   \<not> flat_axis_requested unit_cube 3 (Vec3 3 (-2) 0) \<and>
   (\<exists>M lg. computeResizeTransform id unit_cube 3 (Vec3 3 (-2) 0) (Vec3 False False True) = Inr (M, lg) \<and>
      is_scale_matrix M) \<and>
   autosize_adopts_largest id unit_cube 3 (Vec3 3 (-2) 0) (Vec3 False False True) \<and>
   computeResizeTransform id unit_cube 3 (Vec3 3 (-2) 0) (Vec3 False False True) =
     Inr (scale_matrix 3 (-2) 3, [])"
proof -
  have h1: "\<not> only_negative_targets 3 (Vec3 3 (-2) 0)"
    by (simp add: only_negative_targets_def)
  have h2: "\<not> flat_axis_requested unit_cube 3 (Vec3 3 (-2) 0)"
    by (auto simp: flat_axis_requested_def unit_cube_def less_Suc_eq numeral_3_eq_3)
  have l: "largest_target_axis 3 (Vec3 3 (-2) 0) = Some 0"
    by (simp add: largest_target_axis_def requested_axes_def upt3)
  have s: "specified_scale unit_cube 3 (Vec3 3 (-2) 0) (Vec3 False False True) 0 = 3"
          "specified_scale unit_cube 3 (Vec3 3 (-2) 0) (Vec3 False False True) 1 = -2"
          "specified_scale unit_cube 3 (Vec3 3 (-2) 0) (Vec3 False False True) 2 = 3"
    by (simp_all add: specified_scale_def largest_target_factor_def l unit_cube_def)
  have d: "0 < (3::nat)" "(3::nat) \<le> 3" by simp_all
  note t = computeResizeTransform_autosize[of 3 id unit_cube "Vec3 3 (-2) 0" "Vec3 False False True"]
  have c1: "\<exists>M lg. computeResizeTransform id unit_cube 3 (Vec3 3 (-2) 0) (Vec3 False False True) = Inr (M, lg) \<and>
      is_scale_matrix M"
    using t d by blast
  have c2: "autosize_adopts_largest id unit_cube 3 (Vec3 3 (-2) 0) (Vec3 False False True)"
    using t d h1 by blast
  have "computeResizeTransform id unit_cube 3 (Vec3 3 (-2) 0) (Vec3 False False True) =
        Inr (scale_matrix (id (specified_scale unit_cube 3 (Vec3 3 (-2) 0) (Vec3 False False True) 0))
                          (id (specified_scale unit_cube 3 (Vec3 3 (-2) 0) (Vec3 False False True) 1))
                          (id (specified_scale unit_cube 3 (Vec3 3 (-2) 0) (Vec3 False False True) 2)), [])"
    using t d h1 h2 by blast
  then have c3: "computeResizeTransform id unit_cube 3 (Vec3 3 (-2) 0) (Vec3 False False True) =
     Inr (scale_matrix 3 (-2) 3, [])"
    unfolding s id_apply .
  show ?thesis using d h1 h2 c1 c2 c3 by (intro conjI)
qed
section \<open>Properties of createPolySetFromNefPolyhedron3\<close>

lemma add_halffacet_faces:
  "add_halffacet conv h (av, polys, mp) =
     (case halffacet_faces conv h av of (av', faces) \<Rightarrow>
        if faces = [] then (av', polys, mp) else (av', polys @ [faces], mp @ [\<not> mark h]))"
  by (simp add: add_halffacet_def halffacet_faces_def Let_def split: prod.splits)

lemma fold_add_halffacet:
  "fold (add_halffacet conv) hs (av, polys, mp) =
     (case retained conv hs av of (r, av') \<Rightarrow>
        (av', polys @ map snd r, mp @ map (\<lambda>(h, faces). \<not> mark h) r))"
proof (induction hs arbitrary: av polys mp)
  case Nil
  show ?case by simp
next
  case (Cons h hs)
  obtain av1 faces where hf: "halffacet_faces conv h av = (av1, faces)"
    by (cases "halffacet_faces conv h av")
  obtain r av2 where r: "retained conv hs av1 = (r, av2)" by (cases "retained conv hs av1")
  show ?case
  proof (cases "faces = []")
    case True
    then show ?thesis using Cons.IH[of av1 polys mp] by (simp add: add_halffacet_faces hf r)
  next
    case False
    then show ?thesis
      using Cons.IH[of av1 "polys @ [faces]" "mp @ [\<not> mark h]"]
      by (simp add: add_halffacet_faces hf r)
  qed
qed

lemma add_triangles_eq:
  assumes "polygonIndex < length mp"
  shows "add_triangles verts mp polygonIndex ts (aT, mT) =
     (if \<forall>t\<in>set ts. triangle_ok verts t
      then Inr (aT @ ts, mT @ replicate (length ts) (mp ! polygonIndex))
      else Inl AssertionFailed)"
proof (induction ts arbitrary: aT mT)
  case Nil
  show ?case by simp
next
  case (Cons t ts)
  obtain t0 t1 t2 where t: "t = (t0, t1, t2)" by (cases t)
  show ?case
    using assms Cons.IH[of "aT @ [t]" "mT @ [mp ! polygonIndex]"]
    by (simp add: t triangle_ok_def vector_at_def bind_err_def replicate_app_Cons_same)
qed

lemma triangulate_faces_eq:
  assumes "length mp = polygonIndex + length polys"
  shows "triangulate_faces G verts mp polys polygonIndex (aT, mT) =
     (if \<forall>faces\<in>set polys. \<forall>t\<in>set (kept_triangles G verts faces). triangle_ok verts t
      then Inr (aT @ concat (map (kept_triangles G verts) polys),
                mT @ concat (map (\<lambda>(faces, m). replicate (length (kept_triangles G verts faces)) m)
                              (zip polys (drop polygonIndex mp))))
      else Inl AssertionFailed)"
  using assms
proof (induction polys arbitrary: polygonIndex aT mT)
  case Nil
  show ?case by simp
next
  case (Cons faces polys)
  have idx: "polygonIndex < length mp" using Cons.prems by simp
  have len: "length mp = (polygonIndex + 1) + length polys" using Cons.prems by simp
  have dr: "drop polygonIndex mp = mp ! polygonIndex # drop (polygonIndex + 1) mp"
    using idx by (simp add: Cons_nth_drop_Suc)
  obtain err tris where te: "tessellatePolygonWithHoles G verts faces = (err, tris)"
    by (cases "tessellatePolygonWithHoles G verts faces")
  show ?case
  proof (cases err)
    case True
    then have k: "kept_triangles G verts faces = []" by (simp add: kept_triangles_def te)
    show ?thesis using True Cons.IH[OF len, of aT mT]
      by (simp add: te k dr)
  next
    case False
    then have k: "kept_triangles G verts faces = tris" by (simp add: kept_triangles_def te)
    show ?thesis
    proof (cases "\<forall>t\<in>set tris. triangle_ok verts t")
      case ok: True
      have a: "add_triangles verts mp polygonIndex tris (aT, mT) =
          Inr (aT @ tris, mT @ replicate (length tris) (mp ! polygonIndex))"
        unfolding add_triangles_eq[OF idx] using ok by simp
      show ?thesis
        using False ok Cons.IH[OF len, of "aT @ tris" "mT @ replicate (length tris) (mp ! polygonIndex)"]
        by (simp add: te k dr a bind_err_def)
    next
      case nok: False
      have a: "add_triangles verts mp polygonIndex tris (aT, mT) = Inl AssertionFailed"
        unfolding add_triangles_eq[OF idx] using nok by simp
      show ?thesis
        using False nok by (simp add: te k a bind_err_def)
    qed
  qed
qed

lemma append_one_triangle:
  "append_vertex v2 (append_vertex v1 (append_vertex v0 (append_poly m ps))) =
     ps\<lparr>ps_polygons := ps_polygons ps @ [\<lparr>vertices = [v0, v1, v2], marked = m\<rparr>]\<rparr>"
  by (simp add: append_vertex_def append_poly_def)

lemma append_triangles_eq:
  assumes "length mT = triangleIndex + length ts" "\<forall>t\<in>set ts. triangle_ok verts t"
  shows "append_triangles verts mT ts triangleIndex ps =
     Inr (ps\<lparr>ps_polygons := ps_polygons ps @
            map (\<lambda>(t, m). triangle_polygon verts m t) (zip ts (drop triangleIndex mT))\<rparr>)"
  using assms
proof (induction ts arbitrary: triangleIndex ps)
  case Nil
  show ?case by simp
next
  case (Cons t ts)
  obtain t0 t1 t2 where t: "t = (t0, t1, t2)" by (cases t)
  have idx: "triangleIndex < length mT" using Cons.prems by simp
  have len: "length mT = (triangleIndex + 1) + length ts" using Cons.prems by simp
  have dr: "drop triangleIndex mT = mT ! triangleIndex # drop (triangleIndex + 1) mT"
    using idx by (simp add: Cons_nth_drop_Suc)
  have ok: "index_ok verts t0" "index_ok verts t1" "index_ok verts t2"
    using Cons.prems(2) by (simp_all add: t triangle_ok_def)
  have rest: "\<forall>t\<in>set ts. triangle_ok verts t" using Cons.prems(2) by simp
  show ?case
    using Cons.IH[OF len rest] ok idx
    by (simp add: t vector_at_def vertex_at_def index_ok_def bind_err_def append_one_triangle dr
        triangle_polygon_def)
qed

lemma zip_concat_flags:
  "map (\<lambda>(t, m). f m t)
     (zip (concat (map (\<lambda>(h, faces). K faces) r))
          (concat (map (\<lambda>(h, faces). replicate (length (K faces)) (g h)) r))) =
   concat (map (\<lambda>(h, faces). map (f (g h)) (K faces)) r)"
proof (induction r)
  case Nil
  show ?case by simp
next
  case (Cons x r)
  obtain h faces where x: "x = (h, faces)" by (cases x)
  have "zip (K faces) (replicate (length (K faces)) (g h)) = map (\<lambda>t. (t, g h)) (K faces)"
    by (induction "K faces") (auto simp: zip_replicate2 intro: nth_equalityI)
  then show ?case using Cons.IH by (simp add: x zip_append o_def)
qed

lemma retained_polys_marks:
  "length (map (\<lambda>(h, faces). \<not> mark h) r) = 0 + length (map snd r)"
  by simp

lemma createPolySet_eq:
  "createPolySetFromNefPolyhedron3 G N ps =
     (if tessellator_in_range G N
      then Inr (False, ps\<lparr>ps_polygons := ps_polygons ps @ mesh_with_flags (\<lambda>h. \<not> mark h) G N\<rparr>,
             (case retained (vector_convert G) N [] of (r, verts) \<Rightarrow>
                unconnected_log ''Non-manifold mesh encountered: %1$d unconnected edges''
                  (findUnconnectedEdges_faces G (map snd r)) @
                unconnected_log ''Non-manifold mesh created: %1$d unconnected edges''
                  (findUnconnectedEdges_triangles G
                     (concat (map (kept_triangles G verts) (map snd r))))))
      else Inl AssertionFailed)"
proof -
  obtain r verts where r: "retained (vector_convert G) N [] = (r, verts)"
    by (cases "retained (vector_convert G) N []")
  let ?polys = "map snd r"
  let ?mp = "map (\<lambda>(h, faces). \<not> mark h) r"
  let ?aT = "concat (map (kept_triangles G verts) ?polys)"
  let ?mT = "concat (map (\<lambda>(faces, m). replicate (length (kept_triangles G verts faces)) m)
                       (zip ?polys ?mp))"
  have st1: "fold (add_halffacet (vector_convert G)) N ([], [], []) = (verts, ?polys, ?mp)"
    by (simp add: fold_add_halffacet r)
  have range: "tessellator_in_range G N \<longleftrightarrow>
      (\<forall>faces\<in>set ?polys. \<forall>t\<in>set (kept_triangles G verts faces). triangle_ok verts t)"
    by (auto simp: tessellator_in_range_def r)
  have tess: "triangulate_faces G verts ?mp ?polys 0 ([], []) =
      (if tessellator_in_range G N then Inr (?aT, ?mT) else Inl AssertionFailed)"
    using triangulate_faces_eq[OF retained_polys_marks[of r], of G verts "[]" "[]"]
    by (simp only: range append_Nil drop_0)
  have zipmap: "zip ?polys ?mp = map (\<lambda>(h, faces). (faces, \<not> mark h)) r"
    by (induction r) auto
  have mT: "?mT = concat (map (\<lambda>(h, faces). replicate (length (kept_triangles G verts faces)) (\<not> mark h)) r)"
    unfolding zipmap by (simp add: o_def case_prod_unfold)
  have aT: "?aT = concat (map (\<lambda>(h, faces). kept_triangles G verts faces) r)"
    by (simp add: o_def case_prod_unfold)
  have lens: "length ?mT = 0 + length ?aT"
    unfolding mT aT by (induction r) auto
  have out: "map (\<lambda>(t, m). triangle_polygon verts m t) (zip ?aT ?mT) =
      mesh_with_flags (\<lambda>h. \<not> mark h) G N"
    unfolding mT aT mesh_with_flags_def r
    using zip_concat_flags[of "\<lambda>m t. triangle_polygon verts m t" "kept_triangles G verts" r "\<lambda>h. \<not> mark h"]
    by simp
  have unf: "createPolySetFromNefPolyhedron3 G N ps =
      bind_err (triangulate_faces G verts ?mp ?polys 0 ([], []))
        (\<lambda>(allTriangles, markedTriangles).
           bind_err (append_triangles verts markedTriangles allTriangles 0 ps)
             (\<lambda>ps'. Inr (False, ps',
                unconnected_log ''Non-manifold mesh encountered: %1$d unconnected edges''
                  (findUnconnectedEdges_faces G ?polys) @
                unconnected_log ''Non-manifold mesh created: %1$d unconnected edges''
                  (findUnconnectedEdges_triangles G allTriangles))))"
    by (simp only: createPolySetFromNefPolyhedron3_def Let_def st1 prod.case)
  show ?thesis
  proof (cases "tessellator_in_range G N")
    case True
    then have ok: "\<forall>t\<in>set ?aT. triangle_ok verts t" unfolding range by auto
    have app: "append_triangles verts ?mT ?aT 0 ps =
        Inr (ps\<lparr>ps_polygons := ps_polygons ps @ mesh_with_flags (\<lambda>h. \<not> mark h) G N\<rparr>)"
      using append_triangles_eq[OF lens ok, of ps] out by simp
    have tess': "triangulate_faces G verts ?mp ?polys 0 ([], []) = Inr (?aT, ?mT)"
      using tess True by simp
    show ?thesis
      unfolding unf tess'
      by (simp only: bind_err_def sum.case prod.case app r True if_True)
  next
    case False
    have tess': "triangulate_faces G verts ?mp ?polys 0 ([], []) = Inl AssertionFailed"
      using tess False by simp
    show ?thesis
      unfolding unf tess'
      by (simp only: bind_err_def sum.case False if_False)
  qed
qed

lemma example_retained:
  "retained (vector_convert example_utils) example_nef [] =
     ([(\<lparr>mark = True, incident_volume_mark = False, facet_cycles = [[10, 11, 11, 12, 10]]\<rparr>, [[0, 1, 2]]),
       (\<lparr>mark = False, incident_volume_mark = False, facet_cycles = [[10, 11, 12, 13]]\<rparr>, [[0, 1, 2, 3]]),
       (\<lparr>mark = False, incident_volume_mark = False, facet_cycles = [[12, 11, 10]]\<rparr>, [[2, 1, 0]])],
      [10, 11, 12, 13])"
  by (simp add: example_utils_def example_nef_def halffacet_faces_def add_cycle_def lookup_def Let_def)

lemma example_in_range: "tessellator_in_range example_utils example_nef"
  unfolding tessellator_in_range_def example_retained
  by (auto simp: kept_triangles_def example_utils_def triangle_ok_def index_ok_def)

lemma example_mesh_eq:
  "mesh_with_flags (\<lambda>h. \<not> mark h) example_utils example_nef = ps_polygons example_mesh"
  unfolding mesh_with_flags_def example_retained
  by (simp add: kept_triangles_def example_utils_def triangle_polygon_def example_mesh_def)

lemma example_result:
  "createPolySetFromNefPolyhedron3 example_utils example_nef new_PolySet = Inr (False, example_mesh, [])"
proof -
  have "createPolySetFromNefPolyhedron3 example_utils example_nef new_PolySet =
      Inr (False, new_PolySet\<lparr>ps_polygons := ps_polygons new_PolySet @ ps_polygons example_mesh\<rparr>,
        (case retained (vector_convert example_utils) example_nef [] of (r, verts) \<Rightarrow>
                unconnected_log ''Non-manifold mesh encountered: %1$d unconnected edges''
                  (findUnconnectedEdges_faces example_utils (map snd r)) @
                unconnected_log ''Non-manifold mesh created: %1$d unconnected edges''
                  (findUnconnectedEdges_triangles example_utils
                     (concat (map (kept_triangles example_utils verts) (map snd r))))))"
    using example_in_range by (simp only: createPolySet_eq if_True example_mesh_eq)
  then show ?thesis
    unfolding example_retained
    by (simp add: unconnected_log_def example_utils_def new_PolySet_def example_mesh_def)
qed

lemma example_step1:
  "fold (add_halffacet (vector_convert example_utils)) example_nef ([], [], []) =
     ([10, 11, 12, 13], [[[0, 1, 2]], [[0, 1, 2, 3]], [[2, 1, 0]]], [False, True, True])"
  by (simp add: fold_add_halffacet example_retained)

lemma vertices_mesh_with_flags:
  "map vertices (mesh_with_flags flag_of G N) =
     (case retained (vector_convert G) N [] of (r, verts) \<Rightarrow>
        concat (map (\<lambda>faces. map (triangle_vertices verts) (kept_triangles G verts faces))
                  (map snd r)))"
proof -
  have v: "vertices (triangle_polygon verts m t) = triangle_vertices verts t" for verts m t
    by (cases t) (simp add: triangle_polygon_def triangle_vertices_def)
  show ?thesis
    by (simp add: mesh_with_flags_def map_concat o_def case_prod_unfold v split: prod.splits)
qed

text \<open>
  Claim C2, as the specification states it, fails: in the example the first half-facet
  is marked and its triangle is appended unmarked, the last half-facet is unmarked and
  its triangle is appended marked.
\<close>

theorem createPolySet_mark_counterexample:
  "createPolySetFromNefPolyhedron3 example_utils example_nef new_PolySet =
     Inr (False, example_mesh, []) \<and>
   mesh_with_flags mark example_utils example_nef =
     [\<lparr>vertices = [10, 11, 12], marked = True\<rparr>, \<lparr>vertices = [12, 11, 10], marked = False\<rparr>] \<and>
   \<not> triangles_carry mark example_utils example_nef new_PolySet"
proof -
  have m: "mesh_with_flags mark example_utils example_nef =
      [\<lparr>vertices = [10, 11, 12], marked = True\<rparr>, \<lparr>vertices = [12, 11, 10], marked = False\<rparr>]"
    unfolding mesh_with_flags_def example_retained
    by (simp add: kept_triangles_def example_utils_def triangle_polygon_def)
  have "\<not> triangles_carry mark example_utils example_nef new_PolySet"
    unfolding triangles_carry_def using example_result
    by (auto simp: m example_mesh_def new_PolySet_def)
  with m example_result show ?thesis by blast
qed

text \<open>
  Claim C2, amended. Every triangle appended to the output mesh carries the flag
  recorded for the half-facet from which it was tessellated, and that flag is the
  negation of the half-facet's mark bit (\<^verbatim>\<open>bool marked = !hfaceti->mark()\<close>): the
  output is, half-facet after retained half-facet, the kept triangles of its faces, each
  with the negated mark. Provenance is preserved, with the flag inverted.
\<close>

theorem createPolySet_negated_mark:
  "triangles_carry (\<lambda>h. \<not> mark h) G N ps"
  unfolding triangles_carry_def
  by (simp add: createPolySet_eq split: if_splits)

theorem createPolySet_negated_mark_witness:
  "createPolySetFromNefPolyhedron3 example_utils example_nef new_PolySet = Inr (False, example_mesh, []) \<and>
   example_mesh =
     new_PolySet\<lparr>ps_polygons := ps_polygons new_PolySet @
        mesh_with_flags (\<lambda>h. \<not> mark h) example_utils example_nef\<rparr>"
  using createPolySet_negated_mark[of example_utils example_nef new_PolySet] example_result
  unfolding triangles_carry_def by blast

text \<open>
  Claim C5. The flag that the function returns is never set by a triangulation failure
  (it is false whenever the function returns, so in particular it is true only if some
  earlier step had failed). A face whose triangulation fails contributes no triangle; the
  faces before and after it contribute theirs, in order, and the polygons already in the
  output stay.
\<close>

theorem createPolySet_failed_faces_dropped:
  "failed_faces_dropped G N ps"
proof -
  obtain r verts where r: "retained (vector_convert G) N [] = (r, verts)"
    by (cases "retained (vector_convert G) N []")
  have st1: "fold (add_halffacet (vector_convert G)) N ([], [], []) =
      (verts, map snd r, map (\<lambda>(h, faces). \<not> mark h) r)"
    by (simp add: fold_add_halffacet r)
  have v: "map vertices (mesh_with_flags (\<lambda>h. \<not> mark h) G N) =
      concat (map (\<lambda>faces. map (triangle_vertices verts) (kept_triangles G verts faces)) (map snd r))"
    by (simp only: vertices_mesh_with_flags r prod.case)
  show ?thesis
    unfolding failed_faces_dropped_def st1 prod.case
    by (auto simp: createPolySet_eq v split: if_splits)
qed

theorem createPolySet_failed_faces_dropped_witness:
  "createPolySetFromNefPolyhedron3 example_utils example_nef new_PolySet = Inr (False, example_mesh, []) \<and>
   fold (add_halffacet (vector_convert example_utils)) example_nef ([], [], []) =
     ([10, 11, 12, 13], [[[0, 1, 2]], [[0, 1, 2, 3]], [[2, 1, 0]]], [False, True, True]) \<and>
   fst (tessellatePolygonWithHoles example_utils [10, 11, 12, 13] [[0, 1, 2, 3]]) \<and>
   failed_faces_dropped example_utils example_nef new_PolySet"
  using createPolySet_failed_faces_dropped[of example_utils example_nef new_PolySet]
    example_result example_step1
  by (simp add: example_utils_def)

text \<open>
  Claim C9. Whenever the function returns, the flag it returns is false: the variable
  \<open>err\<close> of the function body is never assigned after its initialisation, the flag of
  the tessellator lives in a variable of the loop body. And the function does return,
  with the flag false, whenever the tessellator only produces indices of existing
  vertices, whether or not it fails on some faces.
\<close>

theorem createPolySet_returns_false:
  "(createPolySetFromNefPolyhedron3 G N ps = Inr (err, ps', lg) \<longrightarrow> err = False) \<and>
   (tessellator_in_range G N \<longrightarrow>
      (\<exists>ps' lg. createPolySetFromNefPolyhedron3 G N ps = Inr (False, ps', lg)))"
  by (simp add: createPolySet_eq)

theorem createPolySet_returns_false_witness:
  "createPolySetFromNefPolyhedron3 example_utils example_nef new_PolySet = Inr (False, example_mesh, []) \<and>
   fst (tessellatePolygonWithHoles example_utils [10, 11, 12, 13] [[0, 1, 2, 3]]) \<and>
   tessellator_in_range example_utils example_nef \<and>
   (\<exists>ps' lg. createPolySetFromNefPolyhedron3 example_utils example_nef new_PolySet = Inr (False, ps', lg))"
  using createPolySet_returns_false[of example_utils example_nef new_PolySet False example_mesh "[]"]
    example_result example_in_range
  by (simp add: example_utils_def)

section \<open>Properties of createNefPolyhedronFromPolySet\<close>









lemma construction_raises_unique:
  "construction_raises C psq e \<Longrightarrow> construction_raises C psq e' \<Longrightarrow> e = e'"
  by (auto simp: construction_raises_def)












text \<open>
  Claim C6. For the empty mesh the function returns the empty Nef polyhedron at once:
  nothing is logged and no construction is attempted.
\<close>

theorem createNef_empty_mesh:
  assumes "isEmpty ps"
  shows "createNefPolyhedronFromPolySet C ps = Inr \<lparr>nef = None, logged = [], attempts = []\<rparr>"
  using assms by (simp add: createNefPolyhedronFromPolySet_def)

theorem createNef_empty_mesh_witness:
  "isEmpty new_PolySet \<and>
   createNefPolyhedronFromPolySet example_cgal new_PolySet =
     Inr \<lparr>nef = None, logged = [], attempts = []\<rparr>"
proof -
  have h: "isEmpty new_PolySet" by (simp add: isEmpty_def new_PolySet_def)
  show ?thesis using h createNef_empty_mesh[OF h, of example_cgal] by simp
qed
section \<open>Properties of is_approximately_convex\<close>

lemma directed_edge_edge_of: "directed_edge polygons i j = edge_of (polygons ! i) j"
  by (simp add: directed_edge_def edge_of_def)

lemma add_edges_Return: "add_edges p i js m = Return b \<Longrightarrow> b = False"
  by (induction js arbitrary: m) (auto simp: Let_def split: if_splits)

lemma add_edges_Continue:
  assumes "add_edges p i js m = Continue m'"
  shows "distinct (map (edge_of p) js) \<and> (\<forall>j\<in>set js. map_of m (edge_of p j) = None) \<and>
         (\<forall>e. map_of m' e = (if e \<in> edge_of p ` set js then Some i else map_of m e))"
  using assms
proof (induction js arbitrary: m)
  case Nil
  then show ?case by simp
next
  case (Cons j js)
  let ?e = "edge_of p j"
  have none: "map_of m ?e = None"
    using Cons.prems by (auto simp: Let_def edge_of_def split: if_splits)
  then have rec: "add_edges p i js (AList.update ?e i m) = Continue m'"
    using Cons.prems by (auto simp: Let_def edge_of_def split: if_splits)
  note IH = Cons.IH[OF rec]
  have upd: "map_of (AList.update ?e i m) = (map_of m)(?e \<mapsto> i)"
    by (rule update_conv')
  have d: "distinct (map (edge_of p) js)" using IH by blast
  have n: "\<forall>j'\<in>set js. ((map_of m)(?e \<mapsto> i)) (edge_of p j') = None"
    using IH upd by simp
  then have ne: "\<forall>j'\<in>set js. edge_of p j' \<noteq> ?e \<and> map_of m (edge_of p j') = None"
    by (auto split: if_splits)
  have m': "\<forall>e. map_of m' e = (if e \<in> edge_of p ` set js then Some i else ((map_of m)(?e \<mapsto> i)) e)"
    using IH upd by simp
  have "distinct (map (edge_of p) (j # js))" using d ne by auto
  moreover have "\<forall>j'\<in>set (j # js). map_of m (edge_of p j') = None" using none ne by simp
  moreover have "\<forall>e. map_of m' e = (if e \<in> edge_of p ` set (j # js) then Some i else map_of m e)"
    using m' by auto
  ultimately show ?case by blast
qed

lemma build_loop_Return: "build_loop K ps idxs st = Return b \<Longrightarrow> b = False"
proof (induction idxs arbitrary: st)
  case Nil
  then show ?case by simp
next
  case (Cons i idxs)
  obtain m planes where st: "st = (m, planes)" by (cases st)
  show ?case
  proof (cases "3 \<le> length (ps ! i)")
    case True
    show ?thesis
    proof (cases "add_edges (ps ! i) i [0..<length (ps ! i)] m")
      case (Return b')
      then show ?thesis using Cons.prems True add_edges_Return[OF Return] by (simp add: st Let_def)
    next
      case (Continue m1)
      then show ?thesis using Cons.prems True Cons.IH by (simp add: st Let_def)
    qed
  next
    case False
    then show ?thesis using Cons.prems Cons.IH by (simp add: st Let_def)
  qed
qed

lemma build_loop_Continue:
  assumes "build_loop K ps idxs (m, planes) = Continue (m', planes')"
  shows "planes' = planes @ map (\<lambda>i. plane_for K (ps ! i)) idxs \<and>
         (\<forall>i\<in>set idxs. 3 \<le> length (ps ! i) \<longrightarrow> inj_on (edge_of (ps ! i)) {..<length (ps ! i)}) \<and>
         (\<forall>e g. map_of m' e = Some g \<longleftrightarrow>
            map_of m e = Some g \<or>
            (g \<in> set idxs \<and> 3 \<le> length (ps ! g) \<and> e \<in> edges_of_face (ps ! g)))"
  using assms
proof (induction idxs arbitrary: m planes)
  case Nil
  then show ?case by simp
next
  case (Cons i idxs)
  show ?case
  proof (cases "3 \<le> length (ps ! i)")
    case False
    then have rec: "build_loop K ps idxs (m, planes @ [default_plane K]) = Continue (m', planes')"
      using Cons.prems by (simp add: Let_def)
    note IH = Cons.IH[OF rec]
    have "planes' = planes @ map (\<lambda>i. plane_for K (ps ! i)) (i # idxs)"
      using IH False by (simp add: plane_for_def)
    moreover have "\<forall>i'\<in>set (i # idxs). 3 \<le> length (ps ! i') \<longrightarrow>
        inj_on (edge_of (ps ! i')) {..<length (ps ! i')}"
      using IH False by auto
    moreover have "\<forall>e g. map_of m' e = Some g \<longleftrightarrow>
            map_of m e = Some g \<or>
            (g \<in> set (i # idxs) \<and> 3 \<le> length (ps ! g) \<and> e \<in> edges_of_face (ps ! g))"
      using IH False by auto
    ultimately show ?thesis by blast
  next
    case True
    let ?p = "ps ! i"
    obtain m1 where m1: "add_edges ?p i [0..<length ?p] m = Continue m1"
      using Cons.prems True by (cases "add_edges ?p i [0..<length ?p] m") (simp_all add: Let_def)
    then have rec: "build_loop K ps idxs (m1, planes @ [newell_plane K ?p]) = Continue (m', planes')"
      using Cons.prems True by (simp add: Let_def)
    note IH = Cons.IH[OF rec]
    note A = add_edges_Continue[OF m1]
    have set_upt: "edge_of ?p ` set [0..<length ?p] = edges_of_face ?p"
      by (simp add: edges_of_face_def lessThan_atLeast0)
    have m1_eq: "\<forall>e. map_of m1 e = (if e \<in> edges_of_face ?p then Some i else map_of m e)"
      using A set_upt by simp
    have fresh: "\<forall>e\<in>edges_of_face ?p. map_of m e = None"
      using A by (auto simp: edges_of_face_def)
    have inj: "inj_on (edge_of ?p) {..<length ?p}"
      using A by (simp add: distinct_map lessThan_atLeast0)
    have "planes' = planes @ map (\<lambda>i. plane_for K (ps ! i)) (i # idxs)"
      using IH True by (simp add: plane_for_def)
    moreover have "\<forall>i'\<in>set (i # idxs). 3 \<le> length (ps ! i') \<longrightarrow>
        inj_on (edge_of (ps ! i')) {..<length (ps ! i')}"
      using IH inj by auto
    moreover have "\<forall>e g. map_of m' e = Some g \<longleftrightarrow>
            map_of m e = Some g \<or>
            (g \<in> set (i # idxs) \<and> 3 \<le> length (ps ! g) \<and> e \<in> edges_of_face (ps ! g))"
    proof (intro allI)
      fix e g
      have "map_of m' e = Some g \<longleftrightarrow>
          map_of m1 e = Some g \<or> (g \<in> set idxs \<and> 3 \<le> length (ps ! g) \<and> e \<in> edges_of_face (ps ! g))"
        using IH by blast
      moreover have "map_of m1 e = Some g \<longleftrightarrow>
          map_of m e = Some g \<or> (g = i \<and> e \<in> edges_of_face ?p)"
      proof (cases "e \<in> edges_of_face ?p")
        case True
        then have "map_of m1 e = Some i" "map_of m e = None"
          using m1_eq[rule_format, of e] fresh by simp_all
        then show ?thesis using True by auto
      next
        case False
        then have "map_of m1 e = map_of m e" using m1_eq[rule_format, of e] by simp
        then show ?thesis using False by simp
      qed
      ultimately show "map_of m' e = Some g \<longleftrightarrow>
            map_of m e = Some g \<or>
            (g \<in> set (i # idxs) \<and> 3 \<le> length (ps ! g) \<and> e \<in> edges_of_face (ps ! g))"
        using True by auto
    qed
    ultimately show ?thesis by blast
  qed
qed

lemma reversed_edge_of: "reversed (edge_of p j) = (p ! ((j + 1) mod length p), p ! j)"
  by (simp add: reversed_def edge_of_def)

lemma check_edges_Return: "check_edges K m planes p i js = Inr (Return b) \<Longrightarrow> b = False"
  by (induction js)
     (auto simp: Let_def bind_err_def vector_at_def split: option.splits if_splits)

lemma check_edges_Continue:
  assumes "check_edges K m planes p i js = Inr (Continue u)"
  shows "\<forall>j\<in>set js. \<exists>g. map_of m (reversed (edge_of p j)) = Some g \<and> g < length planes \<and>
           (has_on_positive_side K (planes ! g) (p ! ((j + 2) mod length p)) \<longrightarrow>
              i < length planes \<and> \<not> double_less (cos_angle K (planes ! g) (planes ! i)) (angle_threshold K))"
  using assms
proof (induction js)
  case Nil
  then show ?case by simp
next
  case (Cons j js)
  from Cons.prems obtain g where g: "map_of m (reversed (edge_of p j)) = Some g"
    by (cases "map_of m (reversed (edge_of p j))") (simp_all add: Let_def reversed_edge_of)
  have gl: "g < length planes"
    using Cons.prems g
    by (auto simp: Let_def reversed_edge_of bind_err_def vector_at_def split: if_splits)
  show ?case
  proof (cases "has_on_positive_side K (planes ! g) (p ! ((j + 2) mod length p))")
    case True
    have il: "i < length planes"
      using Cons.prems g gl True
      by (auto simp: Let_def reversed_edge_of bind_err_def vector_at_def split: if_splits)
    have nc: "\<not> double_less (cos_angle K (planes ! g) (planes ! i)) (angle_threshold K)"
      using Cons.prems g gl il True
      by (auto simp: Let_def reversed_edge_of bind_err_def vector_at_def split: if_splits)
    have "check_edges K m planes p i js = Inr (Continue u)"
      using Cons.prems g gl il True nc
      by (simp add: Let_def reversed_edge_of bind_err_def vector_at_def)
    then show ?thesis using Cons.IH g gl il nc by auto
  next
    case False
    have "check_edges K m planes p i js = Inr (Continue u)"
      using Cons.prems g gl False
      by (simp add: Let_def reversed_edge_of bind_err_def vector_at_def)
    then show ?thesis using Cons.IH g gl False by auto
  qed
qed

lemma check_edges_no_error:
  assumes "\<forall>e g. map_of m e = Some g \<longrightarrow> g < length planes" and "i < length planes"
  shows "check_edges K m planes p i js \<noteq> Inl err"
proof (induction js)
  case Nil
  show ?case by simp
next
  case (Cons j js)
  show ?case
  proof (cases "map_of m (reversed (edge_of p j))")
    case None
    then show ?thesis by (simp add: Let_def reversed_edge_of)
  next
    case (Some g)
    then have "g < length planes" using assms(1) by blast
    then show ?thesis using Some Cons.IH assms(2)
      by (simp add: Let_def reversed_edge_of bind_err_def vector_at_def)
  qed
qed

lemma check_loop_Return: "check_loop K ps m planes idxs = Inr (Return b) \<Longrightarrow> b = False"
proof (induction idxs)
  case Nil
  then show ?case by simp
next
  case (Cons i idxs)
  show ?case
  proof (cases "length (ps ! i) < 3")
    case True
    then show ?thesis using Cons by (simp add: Let_def)
  next
    case False
    show ?thesis
    proof (cases "check_edges K m planes (ps ! i) i [0..<length (ps ! i)]")
      case (Inl e)
      then show ?thesis using Cons.prems False by (simp add: Let_def)
    next
      case (Inr r)
      show ?thesis
      proof (cases r)
        case (Return b')
        then show ?thesis using Cons.prems False Inr check_edges_Return[of K m planes "ps ! i" i _ b']
          by (simp add: Let_def)
      next
        case (Continue u)
        then show ?thesis using Cons False Inr by (simp add: Let_def)
      qed
    qed
  qed
qed

lemma check_loop_Continue:
  assumes "check_loop K ps m planes idxs = Inr (Continue u)"
  shows "\<forall>i\<in>set idxs. 3 \<le> length (ps ! i) \<longrightarrow>
           (\<forall>j<length (ps ! i). \<exists>g. map_of m (reversed (edge_of (ps ! i) j)) = Some g \<and>
              g < length planes \<and>
              (has_on_positive_side K (planes ! g) (ps ! i ! ((j + 2) mod length (ps ! i))) \<longrightarrow>
                 i < length planes \<and> \<not> double_less (cos_angle K (planes ! g) (planes ! i)) (angle_threshold K)))"
  using assms
proof (induction idxs)
  case Nil
  then show ?case by simp
next
  case (Cons i idxs)
  show ?case
  proof (cases "length (ps ! i) < 3")
    case True
    then have "check_loop K ps m planes idxs = Inr (Continue u)"
      using Cons.prems by (simp add: Let_def)
    then show ?thesis using Cons.IH True by auto
  next
    case False
    from Cons.prems False obtain u' where
      ce: "check_edges K m planes (ps ! i) i [0..<length (ps ! i)] = Inr (Continue u')"
      by (auto simp: Let_def split: sum.splits flow.splits)
    then have rec: "check_loop K ps m planes idxs = Inr (Continue u)"
      using Cons.prems False by (simp add: Let_def)
    have here: "\<forall>j<length (ps ! i). \<exists>g. map_of m (reversed (edge_of (ps ! i) j)) = Some g \<and>
              g < length planes \<and>
              (has_on_positive_side K (planes ! g) (ps ! i ! ((j + 2) mod length (ps ! i))) \<longrightarrow>
                 i < length planes \<and> \<not> double_less (cos_angle K (planes ! g) (planes ! i)) (angle_threshold K))"
      using check_edges_Continue[OF ce] by simp
    show ?thesis using Cons.IH[OF rec] here by simp
  qed
qed

lemma check_loop_no_error:
  assumes "\<forall>e g. map_of m e = Some g \<longrightarrow> g < length planes" and "\<forall>i\<in>set idxs. i < length planes"
  shows "check_loop K ps m planes idxs \<noteq> Inl err"
  using assms(2)
proof (induction idxs)
  case Nil
  show ?case by simp
next
  case (Cons i idxs)
  have i: "i < length planes" using Cons.prems by simp
  have ne: "check_edges K m planes (ps ! i) i [0..<length (ps ! i)] \<noteq> Inl err"
    by (rule check_edges_no_error[OF assms(1) i])
  have rec: "check_loop K ps m planes idxs \<noteq> Inl err" using Cons by simp
  show ?case using ne rec by (auto simp: Let_def split: sum.splits flow.splits)
qed

lemma visit_edges_Return: "visit_edges p m idxs st = Return b \<Longrightarrow> b = False"
proof (induction idxs arbitrary: st)
  case Nil
  then show ?case by simp
next
  case (Cons i idxs)
  obtain ex q where st: "st = (ex, q)" by (cases st)
  show ?case using Cons.prems Cons.IH
    by (auto simp: st Let_def split: option.splits if_splits)
qed

lemma visit_edges_Continue:
  assumes "visit_edges p m idxs (ex, q) = Continue (ex', q')"
  shows "ex' \<subseteq> ex \<union> successors p m (set idxs) \<and> set q' \<subseteq> set q \<union> successors p m (set idxs)"
  using assms
proof (induction idxs arbitrary: ex q)
  case Nil
  then show ?case by simp
next
  case (Cons i idxs)
  from Cons.prems obtain g where g: "map_of m (reversed (edge_of p i)) = Some g"
    by (cases "map_of m (reversed (edge_of p i))") (simp_all add: Let_def reversed_edge_of)
  have gs: "g \<in> successors p m (set (i # idxs))" using g by (auto simp: successors_def)
  have mono: "successors p m (set idxs) \<subseteq> successors p m (set (i # idxs))"
    by (auto simp: successors_def)
  show ?case
  proof (cases "g \<in> ex")
    case True
    then have "visit_edges p m idxs (ex, q) = Continue (ex', q')"
      using Cons.prems g by (simp add: Let_def reversed_edge_of)
    from Cons.IH[OF this] show ?thesis using mono by blast
  next
    case False
    then have "visit_edges p m idxs (insert g ex, q @ [g]) = Continue (ex', q')"
      using Cons.prems g by (simp add: Let_def reversed_edge_of)
    from Cons.IH[OF this] show ?thesis using mono gs by auto
  qed
qed

lemma bfs_Return: "bfs ps m ex q = Inr (Return b) \<Longrightarrow> b = False"
proof (induction ps m ex q rule: bfs.induct)
  case (1 ps m ex)
  then show ?case by simp
next
  case (2 ps m ex f q)
  from "2.prems" obtain p where p: "vector_at ps f = Inr p"
    by (cases "vector_at ps f") simp_all
  show ?case
  proof (cases "visit_edges p m [0..<length p] (ex, q)")
    case (Return b')
    then show ?thesis using "2.prems" p visit_edges_Return[OF Return] by simp
  next
    case (Continue st)
    obtain ex' q' where st: "st = (ex', q')" by (cases st)
    have "bfs ps m ex' q' = Inr (Return b)" using "2.prems" p Continue st by simp
    then show ?thesis using "2.IH"[OF p Continue st[symmetric]] by simp
  qed
qed

lemma bfs_Continue_subset:
  assumes "bfs ps m ex q = Inr (Continue exf)" and "ex \<subseteq> S" and "set q \<subseteq> S"
    and "\<forall>f\<in>S. f < length ps \<longrightarrow> successors (ps ! f) m {..<length (ps ! f)} \<subseteq> S"
  shows "exf \<subseteq> S"
  using assms
proof (induction ps m ex q rule: bfs.induct)
  case (1 ps m ex)
  then show ?case by simp
next
  case (2 ps m ex f q)
  from "2.prems"(1) obtain p where p: "vector_at ps f = Inr p"
    by (cases "vector_at ps f") simp_all
  then have f: "f < length ps" "p = ps ! f" by (auto simp: vector_at_def split: if_splits)
  from "2.prems"(1) p obtain st where v: "visit_edges p m [0..<length p] (ex, q) = Continue st"
    by (cases "visit_edges p m [0..<length p] (ex, q)") simp_all
  obtain ex' q' where st: "st = (ex', q')" by (cases st)
  have rec: "bfs ps m ex' q' = Inr (Continue exf)" using "2.prems"(1) p v st by simp
  have fS: "f \<in> S" using "2.prems"(3) by simp
  have succ: "successors p m (set [0..<length p]) \<subseteq> S"
    using "2.prems"(4) fS f by (simp add: lessThan_atLeast0)
  from visit_edges_Continue[OF v[unfolded st]]
  have "ex' \<subseteq> S" "set q' \<subseteq> S" using succ "2.prems"(2,3) by auto
  then show ?case using "2.IH"[OF p v st[symmetric] rec] "2.prems"(4) by simp
qed

lemma bfs_no_error:
  assumes "set q \<subseteq> {..<length ps}" and "\<forall>e g. map_of m e = Some g \<longrightarrow> g < length ps"
  shows "bfs ps m ex q \<noteq> Inl err"
  using assms
proof (induction ps m ex q rule: bfs.induct)
  case (1 ps m ex)
  show ?case by simp
next
  case (2 ps m ex f q)
  have f: "f < length ps" using "2.prems" by simp
  then have p: "vector_at ps f = Inr (ps ! f)" by (simp add: vector_at_def)
  show ?case
  proof (cases "visit_edges (ps ! f) m [0..<length (ps ! f)] (ex, q)")
    case (Return b)
    then show ?thesis using p by simp
  next
    case (Continue st)
    obtain ex' q' where st: "st = (ex', q')" by (cases st)
    have "successors (ps ! f) m (set [0..<length (ps ! f)]) \<subseteq> {..<length ps}"
      unfolding successors_def using "2.prems"(2) by blast
    with visit_edges_Continue[OF Continue[unfolded st]] "2.prems"(1)
    have "set q' \<subseteq> {..<length ps}" by auto
    from "2.IH"[OF p Continue st[symmetric] this "2.prems"(2)]
    show ?thesis using p Continue st by simp
  qed
qed
lemma build_all:
  assumes "build_loop K ps [0..<length ps] ([], []) = Continue (m, planes)"
  shows "planes = map (plane_for K) ps"
    and "\<forall>i<length ps. 3 \<le> length (ps ! i) \<longrightarrow> inj_on (edge_of (ps ! i)) {..<length (ps ! i)}"
    and "\<forall>e g. map_of m e = Some g \<longleftrightarrow>
           g < length ps \<and> 3 \<le> length (ps ! g) \<and> e \<in> edges_of_face (ps ! g)"
proof -
  note B = build_loop_Continue[OF assms]
  have "map (\<lambda>i. plane_for K (ps ! i)) [0..<length ps] = map (plane_for K) ps"
    by (intro nth_equalityI) simp_all
  then show "planes = map (plane_for K) ps" using B by simp
  show "\<forall>i<length ps. 3 \<le> length (ps ! i) \<longrightarrow> inj_on (edge_of (ps ! i)) {..<length (ps ! i)}"
    using B by simp
  show "\<forall>e g. map_of m e = Some g \<longleftrightarrow>
           g < length ps \<and> 3 \<le> length (ps ! g) \<and> e \<in> edges_of_face (ps ! g)"
    using B by simp
qed

lemma edge_in_face: "j < length p \<Longrightarrow> edge_of p j \<in> edges_of_face p"
  by (simp add: edges_of_face_def)

lemma edges_of_faceE:
  assumes "e \<in> edges_of_face p" obtains k where "k < length p" "edge_of p k = e"
  using assms by (auto simp: edges_of_face_def)

lemma conditions_Nil: "convexity_conditions within_tolerance K []"
  by (simp add: convexity_conditions_def no_repeated_edge_def every_edge_has_reverse_def
      no_reflex_edge_def all_faces_reached_def)

lemma convex_no_error:
  assumes "ps \<noteq> []"
  shows "is_approximately_convex K ps \<noteq> Inl err"
proof (cases "build_loop K ps [0..<length ps] ([], [])")
  case (Return b)
  then show ?thesis by (simp add: is_approximately_convex_def)
next
  case (Continue st)
  obtain m planes where st: "st = (m, planes)" by (cases st)
  note B = build_all[OF Continue[unfolded st]]
  have len: "length planes = length ps" using B(1) by simp
  have vals: "\<forall>e g. map_of m e = Some g \<longrightarrow> g < length planes"
    using B(3) len by simp
  have c: "check_loop K ps m planes [0..<length ps] \<noteq> Inl err"
    by (rule check_loop_no_error[OF vals]) (simp add: len)
  have vals': "\<forall>e g. map_of m e = Some g \<longrightarrow> g < length ps" using vals len by simp
  have b: "bfs ps m {0} [0] \<noteq> Inl err"
    by (rule bfs_no_error[OF _ vals']) (use assms in simp)
  show ?thesis
    using c b by (auto simp: is_approximately_convex_def Continue st split: sum.splits flow.splits)
qed

lemma convex_True_parts:
  assumes "is_approximately_convex K ps = Inr True"
  obtains m planes u exf where
    "build_loop K ps [0..<length ps] ([], []) = Continue (m, planes)"
    "check_loop K ps m planes [0..<length ps] = Inr (Continue u)"
    "bfs ps m {0} [0] = Inr (Continue exf)"
    "card exf = length ps"
proof -
  obtain st where B: "build_loop K ps [0..<length ps] ([], []) = Continue st"
    using assms build_loop_Return[of K ps "[0..<length ps]" "([], [])"]
    by (cases "build_loop K ps [0..<length ps] ([], [])")
       (auto simp: is_approximately_convex_def)
  obtain m planes where st: "st = (m, planes)" by (cases st)
  have r1: "(case check_loop K ps m planes [0..<length ps] of
             Inl e \<Rightarrow> Inl e
           | Inr (Return b) \<Rightarrow> Inr b
           | Inr (Continue _) \<Rightarrow>
               (case bfs ps m {0} [0] of
                  Inl e \<Rightarrow> Inl e
                | Inr (Return b) \<Rightarrow> Inr b
                | Inr (Continue explored_facets) \<Rightarrow>
                    Inr (card explored_facets = length ps))) = Inr True"
    using assms by (simp add: is_approximately_convex_def B st)
  obtain u where C: "check_loop K ps m planes [0..<length ps] = Inr (Continue u)"
  proof (cases "check_loop K ps m planes [0..<length ps]")
    case (Inl e)
    then show ?thesis using r1 by simp
  next
    case (Inr r)
    show ?thesis
    proof (cases r)
      case (Return b)
      then show ?thesis using r1 Inr check_loop_Return[of K ps m planes "[0..<length ps]" b] by simp
    next
      case (Continue u)
      then show ?thesis using Inr that by simp
    qed
  qed
  have r2: "(case bfs ps m {0} [0] of
                  Inl e \<Rightarrow> Inl e
                | Inr (Return b) \<Rightarrow> Inr b
                | Inr (Continue explored_facets) \<Rightarrow>
                    Inr (card explored_facets = length ps)) = Inr True"
    using r1 by (simp add: C)
  obtain exf where D: "bfs ps m {0} [0] = Inr (Continue exf)" "card exf = length ps"
  proof (cases "bfs ps m {0} [0]")
    case (Inl e)
    then show ?thesis using r2 by simp
  next
    case (Inr r)
    show ?thesis
    proof (cases r)
      case (Return b)
      then show ?thesis using r2 Inr bfs_Return[of ps m "{0}" "[0]" b] by simp
    next
      case (Continue exf)
      then show ?thesis using Inr r2 that by simp
    qed
  qed
  show ?thesis using that[OF B[unfolded st] C D] .
qed

lemma convex_True_conditions:
  assumes tess: "tessellated ps" and res: "is_approximately_convex K ps = Inr True"
  shows "convexity_conditions not_below_threshold K ps"
proof -
  from res obtain m planes u exf where
    B: "build_loop K ps [0..<length ps] ([], []) = Continue (m, planes)" and
    C: "check_loop K ps m planes [0..<length ps] = Inr (Continue u)" and
    D: "bfs ps m {0} [0] = Inr (Continue exf)" and
    card: "card exf = length ps"
    by (rule convex_True_parts)
  let ?n = "length ps"
  have three: "length (ps ! i) = 3" if "i < ?n" for i
    using tess that by (simp add: tessellated_def)
  have planes: "planes = map (plane_for K) ps"
    and inj: "\<forall>i<?n. 3 \<le> length (ps ! i) \<longrightarrow> inj_on (edge_of (ps ! i)) {..<length (ps ! i)}"
    and own: "\<forall>e g. map_of m e = Some g \<longleftrightarrow> g < ?n \<and> 3 \<le> length (ps ! g) \<and> e \<in> edges_of_face (ps ! g)"
    using build_all[OF B] by blast+
  have owner: "map_of m (edge_of (ps ! g) k) = Some g" if "g < ?n" "k < length (ps ! g)" for g k
    using own[rule_format, of "edge_of (ps ! g) k" g] that three[OF that(1)]
      edge_in_face[OF that(2)] by simp
  have plane: "planes ! g = newell_plane K (ps ! g)" if "g < ?n" for g
    using planes that three[OF that] by (simp add: plane_for_def)
  note chk = check_loop_Continue[OF C]
  have rev: "\<exists>g. map_of m (reversed (edge_of (ps ! i) j)) = Some g \<and> g < length planes \<and>
              (has_on_positive_side K (planes ! g) (ps ! i ! ((j + 2) mod length (ps ! i))) \<longrightarrow>
                 i < length planes \<and> \<not> double_less (cos_angle K (planes ! g) (planes ! i)) (angle_threshold K))"
    if "i < ?n" "j < length (ps ! i)" for i j
  proof -
    have "i \<in> set [0..<?n]" using that(1) by simp
    moreover have "3 \<le> length (ps ! i)" using three[OF that(1)] by simp
    ultimately show ?thesis using chk that(2) by blast
  qed
  have c1: "no_repeated_edge ps"
    unfolding no_repeated_edge_def directed_edge_edge_of
  proof (intro allI impI)
    fix i i' j j'
    assume i: "i < ?n" and i': "i' < ?n" and j: "j < length (ps ! i)" and j': "j' < length (ps ! i')"
      and eq: "edge_of (ps ! i) j = edge_of (ps ! i') j'"
    have "map_of m (edge_of (ps ! i) j) = Some i" using owner[OF i j] .
    moreover have "map_of m (edge_of (ps ! i) j) = Some i'" using owner[OF i' j'] eq by simp
    ultimately have ii: "i = i'" by simp
    have "inj_on (edge_of (ps ! i)) {..<length (ps ! i)}"
      using inj[rule_format, OF i] three[OF i] by simp
    then have "j = j'" using eq j j' ii by (auto dest: inj_onD)
    with ii show "i = i' \<and> j = j'" by simp
  qed
  have c2: "every_edge_has_reverse ps"
    unfolding every_edge_has_reverse_def directed_edge_edge_of
  proof (intro allI impI)
    fix i j
    assume i: "i < ?n" and j: "j < length (ps ! i)"
    from rev[OF i j] obtain g where g: "map_of m (reversed (edge_of (ps ! i) j)) = Some g"
      by blast
    then have gn: "g < ?n" and "reversed (edge_of (ps ! i) j) \<in> edges_of_face (ps ! g)"
      using own by blast+
    then obtain k where "k < length (ps ! g)" "edge_of (ps ! g) k = reversed (edge_of (ps ! i) j)"
      by (auto elim: edges_of_faceE)
    with gn show "\<exists>g<?n. \<exists>k<length (ps ! g). edge_of (ps ! g) k = reversed (edge_of (ps ! i) j)"
      by blast
  qed
  have c3: "no_reflex_edge not_below_threshold K ps"
    unfolding no_reflex_edge_def directed_edge_edge_of not_below_threshold_def
  proof (intro allI impI)
    fix i j g k
    assume i: "i < ?n" and j: "j < length (ps ! i)" and g: "g < ?n" and k: "k < length (ps ! g)"
      and h: "edge_of (ps ! g) k = reversed (edge_of (ps ! i) j) \<and>
          has_on_positive_side K (newell_plane K (ps ! g)) (ps ! i ! ((j + 2) mod length (ps ! i)))"
    from rev[OF i j] obtain g' where g': "map_of m (reversed (edge_of (ps ! i) j)) = Some g'"
      and pos: "has_on_positive_side K (planes ! g') (ps ! i ! ((j + 2) mod length (ps ! i))) \<longrightarrow>
                 \<not> double_less (cos_angle K (planes ! g') (planes ! i)) (angle_threshold K)"
      by blast
    have "map_of m (reversed (edge_of (ps ! i) j)) = Some g" using owner[OF g k] h by simp
    with g' have gg: "g' = g" by simp
    show "\<not> double_less (cos_angle K (newell_plane K (ps ! g)) (newell_plane K (ps ! i)))
              (angle_threshold K)"
      using pos h unfolding gg plane[OF g] plane[OF i] by blast
  qed
  have n0: "0 < ?n"
    using D by (cases ps) (simp_all add: vector_at_def)
  define S where "S = {g. g < ?n \<and> (0, g) \<in> (reverse_link ps)\<^sup>*}"
  have closed: "\<forall>f\<in>S. f < ?n \<longrightarrow> successors (ps ! f) m {..<length (ps ! f)} \<subseteq> S"
  proof (intro ballI impI subsetI)
    fix f g
    assume f: "f \<in> S" "f < ?n" and "g \<in> successors (ps ! f) m {..<length (ps ! f)}"
    then obtain j where j: "j < length (ps ! f)"
      and mg: "map_of m (reversed (edge_of (ps ! f) j)) = Some g"
      by (auto simp: successors_def)
    from mg have gn: "g < ?n" and "reversed (edge_of (ps ! f) j) \<in> edges_of_face (ps ! g)"
      using own by blast+
    then obtain k where "k < length (ps ! g)" "edge_of (ps ! g) k = reversed (edge_of (ps ! f) j)"
      by (auto elim: edges_of_faceE)
    then have "(f, g) \<in> reverse_link ps"
      using f(2) gn j by (auto simp: reverse_link_def directed_edge_edge_of)
    moreover have "(0, f) \<in> (reverse_link ps)\<^sup>*" using f(1) by (simp add: S_def)
    ultimately have "(0, g) \<in> (reverse_link ps)\<^sup>*" by (rule rtrancl_into_rtrancl[rotated])
    with gn show "g \<in> S" by (simp add: S_def)
  qed
  have init: "{0} \<subseteq> S" "set [0] \<subseteq> S" using n0 by (simp_all add: S_def)
  have sub: "exf \<subseteq> S" by (rule bfs_Continue_subset[OF D init closed])
  have "S \<subseteq> {..<?n}" by (auto simp: S_def)
  with sub have "exf \<subseteq> {..<?n}" by blast
  then have "exf = {..<?n}" using card by (intro card_subset_eq) simp_all
  with sub have "{..<?n} \<subseteq> S" by simp
  then have c4: "all_faces_reached ps"
    by (auto simp: all_faces_reached_def S_def)
  show ?thesis unfolding convexity_conditions_def using c1 c2 c3 c4 by blast
qed

lemma at_least_iff_not_below:
  "c \<noteq> NaN \<Longrightarrow> t \<noteq> NaN \<Longrightarrow> at_least_threshold c t \<longleftrightarrow> not_below_threshold c t"
  by (cases c; cases t) (auto simp: at_least_threshold_def not_below_threshold_def)

lemma readings_agree:
  assumes "cosines_are_numbers K ps"
  shows "convexity_conditions at_least_threshold K ps \<longleftrightarrow>
         convexity_conditions not_below_threshold K ps"
proof -
  have "at_least_threshold (cos_angle K (newell_plane K (ps ! g)) (newell_plane K (ps ! i)))
          (angle_threshold K) \<longleftrightarrow>
        not_below_threshold (cos_angle K (newell_plane K (ps ! g)) (newell_plane K (ps ! i)))
          (angle_threshold K)"
    if "g < length ps" "i < length ps" for g i
    using assms that unfolding cosines_are_numbers_def by (intro at_least_iff_not_below) auto
  then have "no_reflex_edge at_least_threshold K ps \<longleftrightarrow> no_reflex_edge not_below_threshold K ps"
    unfolding no_reflex_edge_def by blast
  then show ?thesis unfolding convexity_conditions_def by simp
qed

lemma upt4: "[0..<4] = [0, 1, 2, 3]"
  by (simp add: upt_rec)

lemma tetrahedron_convex: "is_approximately_convex exact_kernel tetrahedron = Inr True"
  by (simp add: is_approximately_convex_def tetrahedron_def upt4 upt3 exact_kernel_def
      newell_normal_def Let_def bind_err_def vector_at_def)

lemma single_triangle_open: "\<not> every_edge_has_reverse single_triangle"
proof
  assume "every_edge_has_reverse single_triangle"
  then have "\<exists>g<length single_triangle. \<exists>k<length (single_triangle ! g).
      directed_edge single_triangle g k = reversed (directed_edge single_triangle 0 0)"
    unfolding every_edge_has_reverse_def by (simp add: single_triangle_def)
  then obtain g k where g: "g < length single_triangle"
    and k: "k < length (single_triangle ! g)"
    and eq: "directed_edge single_triangle g k = reversed (directed_edge single_triangle 0 0)"
    by blast
  have g0: "g = 0" using g by (simp add: single_triangle_def)
  have "k < 3" using k g0 by (simp add: single_triangle_def)
  then have "k = 0 \<or> k = 1 \<or> k = 2" by arith
  then show False
    using eq g0 by (auto simp: directed_edge_def reversed_def single_triangle_def)
qed

lemma upt6: "[0..<6] = [0, 1, 2, 3, 4, 5]"
  by (simp add: upt_rec)

text \<open>The mesh with the collinear face, evaluated in the arithmetic of doubles.\<close>

lemma vertices_distinct:
  "vertex_A \<noteq> vertex_B"
  "vertex_A \<noteq> vertex_C"
  "vertex_A \<noteq> vertex_D"
  "vertex_A \<noteq> vertex_M"
  "vertex_B \<noteq> vertex_A"
  "vertex_B \<noteq> vertex_C"
  "vertex_B \<noteq> vertex_D"
  "vertex_B \<noteq> vertex_M"
  "vertex_C \<noteq> vertex_A"
  "vertex_C \<noteq> vertex_B"
  "vertex_C \<noteq> vertex_D"
  "vertex_C \<noteq> vertex_M"
  "vertex_D \<noteq> vertex_A"
  "vertex_D \<noteq> vertex_B"
  "vertex_D \<noteq> vertex_C"
  "vertex_D \<noteq> vertex_M"
  "vertex_M \<noteq> vertex_A"
  "vertex_M \<noteq> vertex_B"
  "vertex_M \<noteq> vertex_C"
  "vertex_M \<noteq> vertex_D"
  by (simp_all add: vertex_A_def vertex_B_def vertex_C_def vertex_D_def vertex_M_def
      double_zero_def double_one_def)

lemma vertex_D_is_six_tenths:
  "\<bar>value_of (Dyadic 5404319552844595 (- 53)) - 6 / 10\<bar> < 2 powi (- 54)"
  by code_simp

lemma plane_ABD:
  "Plane [vertex_A, vertex_B, vertex_D] =
     (Dyadic (- 5404319552844595) (- 53), Dyadic 0 0, Dyadic 5404319552844596 (- 53),
      Dyadic 0 (- 53))"
  by code_simp

lemma side_ABD_M:
  "side_of_oriented_plane (Plane [vertex_A, vertex_B, vertex_D]) vertex_M = Dyadic 1 (- 54)"
  by code_simp

lemma normal_BAM: "is_zero_vector (orthogonal_vector (Plane [vertex_B, vertex_A, vertex_M]))"
  by code_simp

lemma side_fires: "double_has_on_positive_side (Plane [vertex_A, vertex_B, vertex_D]) vertex_M"
  by (simp add: double_has_on_positive_side_def side_ABD_M)

lemma side_does_not_fire:
  "\<not> double_has_on_positive_side (Plane [vertex_A, vertex_D, vertex_C]) vertex_M"
  "\<not> double_has_on_positive_side (Plane [vertex_M, vertex_C, vertex_B]) vertex_A"
  "\<not> double_has_on_positive_side (Plane [vertex_B, vertex_A, vertex_M]) vertex_C"
  "\<not> double_has_on_positive_side (Plane [vertex_A, vertex_C, vertex_M]) vertex_B"
  "\<not> double_has_on_positive_side (Plane [vertex_B, vertex_C, vertex_D]) vertex_M"
  "\<not> double_has_on_positive_side (Plane [vertex_B, vertex_A, vertex_M]) vertex_D"
  "\<not> double_has_on_positive_side (Plane [vertex_B, vertex_C, vertex_D]) vertex_A"
  "\<not> double_has_on_positive_side (Plane [vertex_A, vertex_D, vertex_C]) vertex_B"
  "\<not> double_has_on_positive_side (Plane [vertex_A, vertex_B, vertex_D]) vertex_C"
  "\<not> double_has_on_positive_side (Plane [vertex_A, vertex_C, vertex_M]) vertex_D"
  "\<not> double_has_on_positive_side (Plane [vertex_M, vertex_C, vertex_B]) vertex_D"
  by code_simp+

lemma cosine_is_NaN:
  "double_cos_angle (Plane [vertex_A, vertex_B, vertex_D]) (Plane [vertex_B, vertex_A, vertex_M]) = NaN"
  by (simp add: double_cos_angle_def normal_BAM)

lemma split_tetrahedron_convex:
  "is_approximately_convex double_kernel split_tetrahedron = Inr True"
  by (simp add: is_approximately_convex_def split_tetrahedron_def upt6 upt3 double_kernel_def
      Let_def bind_err_def vector_at_def vertices_distinct side_fires side_does_not_fire
      cosine_is_NaN)

lemma split_tetrahedron_tessellated: "tessellated split_tetrahedron"
  by (simp add: tessellated_def split_tetrahedron_def)

text \<open>
  Claim C3, as the specification states it, fails on a tessellated mesh with a collinear
  face. In the mesh \<open>split_tetrahedron\<close> the face \<open>BAM\<close> has the zero vector as its Newell
  normal. Its edge \<open>BA\<close> has its reverse in the face \<open>ABD\<close>, whose normal is computed as
  \<open>(-0.6, 0, 0.6000000000000001)\<close>, the sum \<open>1 + 0.6\<close> having been rounded up; so the
  vertex \<open>M = (0.5, 0.5, 0.5)\<close>, which lies on the line \<open>AB\<close>, is found strictly on the
  positive side of the plane of \<open>ABD\<close>: the expression of the side test has the value
  \<open>2\<^sup>-\<^sup>5\<^sup>4\<close>. The cosine of the two normals is not a
  number, the test \<^verbatim>\<open>cos_angle < angle_threshold\<close> is false, and the function returns
  true, while the cosine is not at least the threshold.
\<close>

theorem is_approximately_convex_NaN_counterexample:
  "tessellated split_tetrahedron \<and>
   is_approximately_convex double_kernel split_tetrahedron = Inr True \<and>
   directed_edge split_tetrahedron 2 0 = reversed (directed_edge split_tetrahedron 5 0) \<and>
   has_on_positive_side double_kernel (newell_plane double_kernel (split_tetrahedron ! 2))
     (split_tetrahedron ! 5 ! 2) \<and>
   cos_angle double_kernel (newell_plane double_kernel (split_tetrahedron ! 2))
     (newell_plane double_kernel (split_tetrahedron ! 5)) = NaN \<and>
   \<not> convexity_conditions at_least_threshold double_kernel split_tetrahedron"
proof -
  have e: "directed_edge split_tetrahedron 2 0 = reversed (directed_edge split_tetrahedron 5 0)"
    by (simp add: directed_edge_def reversed_def split_tetrahedron_def)
  have p: "has_on_positive_side double_kernel (newell_plane double_kernel (split_tetrahedron ! 2))
     (split_tetrahedron ! 5 ! 2)"
    by (simp add: double_kernel_def split_tetrahedron_def side_fires)
  have c: "cos_angle double_kernel (newell_plane double_kernel (split_tetrahedron ! 2))
     (newell_plane double_kernel (split_tetrahedron ! 5)) = NaN"
    by (simp add: double_kernel_def split_tetrahedron_def cosine_is_NaN)
  have "\<not> no_reflex_edge at_least_threshold double_kernel split_tetrahedron"
  proof
    assume a: "no_reflex_edge at_least_threshold double_kernel split_tetrahedron"
    have "at_least_threshold
            (cos_angle double_kernel (newell_plane double_kernel (split_tetrahedron ! 2))
               (newell_plane double_kernel (split_tetrahedron ! 5)))
            (angle_threshold double_kernel)"
      by (rule a[unfolded no_reflex_edge_def, rule_format, of 5 0 2 0])
         (simp_all add: split_tetrahedron_def directed_edge_def reversed_def double_kernel_def
            side_fires)
    then have "at_least_threshold NaN (angle_threshold double_kernel)"
      unfolding c .
    then show False by (simp add: at_least_threshold_def)
  qed
  then have "\<not> convexity_conditions at_least_threshold double_kernel split_tetrahedron"
    by (simp add: convexity_conditions_def)
  with split_tetrahedron_tessellated split_tetrahedron_convex e p c show ?thesis by blast
qed

text \<open>
  Claim C3, amended. On a tessellated mesh the function returns true only if no directed
  edge occurs twice, every directed edge has its reverse in some face, no edge is reflex
  beyond the tolerance (where the vertex two steps ahead on a face lies strictly on the
  positive side of the neighbour's plane, the cosine of the angle between the two normals
  is not below the threshold, which includes a cosine that is not a number), and every
  face is reached from face 0 over reverse-edge links. If one of the conditions fails,
  the function returns false. Where no cosine of the mesh is not a number, the cosine is
  then at least the threshold, as the specification has it.
\<close>

theorem is_approximately_convex_conditions:
  assumes "tessellated polygons"
  shows "(is_approximately_convex K polygons = Inr True \<longrightarrow>
            convexity_conditions not_below_threshold K polygons) \<and>
         (\<not> convexity_conditions not_below_threshold K polygons \<longrightarrow>
            is_approximately_convex K polygons = Inr False) \<and>
         (is_approximately_convex K polygons = Inr True \<and> cosines_are_numbers K polygons \<longrightarrow>
            convexity_conditions at_least_threshold K polygons)"
proof (intro conjI impI)
  assume "is_approximately_convex K polygons = Inr True"
  with assms show "convexity_conditions not_below_threshold K polygons"
    by (rule convex_True_conditions)
next
  assume nc: "\<not> convexity_conditions not_below_threshold K polygons"
  then have "polygons \<noteq> []" using conditions_Nil[of not_below_threshold K] by auto
  then have "\<forall>err. is_approximately_convex K polygons \<noteq> Inl err"
    using convex_no_error by blast
  then obtain b where b: "is_approximately_convex K polygons = Inr b"
    by (cases "is_approximately_convex K polygons") auto
  have "b \<noteq> True" using nc b convex_True_conditions[OF assms, of K] by auto
  with b show "is_approximately_convex K polygons = Inr False" by simp
next
  assume h: "is_approximately_convex K polygons = Inr True \<and> cosines_are_numbers K polygons"
  then have "convexity_conditions not_below_threshold K polygons"
    using convex_True_conditions[OF assms, of K] by blast
  then show "convexity_conditions at_least_threshold K polygons"
    using readings_agree[of K polygons] h by blast
qed

lemma tetrahedron_cosines: "cosines_are_numbers exact_kernel tetrahedron"
proof -
  have len: "length tetrahedron = 4" by (simp add: tetrahedron_def)
  have nz: "\<forall>g<4. newell_normal (tetrahedron ! g) \<noteq> (0, 0, 0)"
    unfolding all_less_4 by (simp add: tetrahedron_def newell_normal_def upt3)
  have "cos_angle exact_kernel (newell_plane exact_kernel (tetrahedron ! g))
          (newell_plane exact_kernel (tetrahedron ! i)) \<noteq> NaN"
    if "g < 4" "i < 4" for g i
    using nz[rule_format, OF that(1)] nz[rule_format, OF that(2)]
    by (simp add: exact_kernel_def)
  then show ?thesis unfolding cosines_are_numbers_def len by (simp add: exact_kernel_def)
qed

theorem is_approximately_convex_conditions_witness:
  "tessellated tetrahedron \<and>
   is_approximately_convex exact_kernel tetrahedron = Inr True \<and>
   cosines_are_numbers exact_kernel tetrahedron \<and>
   convexity_conditions not_below_threshold exact_kernel tetrahedron \<and>
   convexity_conditions at_least_threshold exact_kernel tetrahedron \<and>
   tessellated single_triangle \<and>
   \<not> convexity_conditions not_below_threshold exact_kernel single_triangle \<and>
   is_approximately_convex exact_kernel single_triangle = Inr False \<and>
   tessellated split_tetrahedron \<and>
   is_approximately_convex double_kernel split_tetrahedron = Inr True \<and>
   convexity_conditions not_below_threshold double_kernel split_tetrahedron"
proof -
  have t1: "tessellated tetrahedron" by (simp add: tessellated_def tetrahedron_def)
  have t2: "tessellated single_triangle" by (simp add: tessellated_def single_triangle_def)
  have n2: "\<not> convexity_conditions not_below_threshold exact_kernel single_triangle"
    using single_triangle_open by (simp add: convexity_conditions_def)
  show ?thesis
    using t1 t2 n2 tetrahedron_convex tetrahedron_cosines
      split_tetrahedron_tessellated split_tetrahedron_convex
      is_approximately_convex_conditions[OF t1, of exact_kernel]
      is_approximately_convex_conditions[OF t2, of exact_kernel]
      is_approximately_convex_conditions[OF split_tetrahedron_tessellated, of double_kernel]
    by blast
qed

text \<open>
  Claim C10. The traversal starts by putting face 0 in the queue and reads
  \<^verbatim>\<open>ps.polygons[0]\<close>: on a mesh without polygons that access is out of bounds. It is
  the only way for the function to leave its containers: on every mesh with at least
  one polygon it returns true or false.
\<close>

theorem is_approximately_convex_needs_face:
  "is_approximately_convex K [] = Inl OutOfBounds \<and>
   (polygons \<noteq> [] \<longrightarrow> (\<exists>b. is_approximately_convex K polygons = Inr b))"
proof (intro conjI impI)
  show "is_approximately_convex K [] = Inl OutOfBounds"
    by (simp add: is_approximately_convex_def vector_at_def)
next
  assume "polygons \<noteq> []"
  then have "\<forall>err. is_approximately_convex K polygons \<noteq> Inl err"
    using convex_no_error by blast
  then show "\<exists>b. is_approximately_convex K polygons = Inr b"
    by (cases "is_approximately_convex K polygons") auto
qed

theorem is_approximately_convex_needs_face_witness:
  "is_approximately_convex exact_kernel [] = Inl OutOfBounds \<and>
   single_triangle \<noteq> [] \<and>
   (\<exists>b. is_approximately_convex exact_kernel single_triangle = Inr b)"
proof -
  have ne: "single_triangle \<noteq> []" by (simp add: single_triangle_def)
  show ?thesis
    using ne is_approximately_convex_needs_face[of exact_kernel single_triangle] by blast
qed


end
